theory Spec2Isabelle
  imports Main "HOL-Library.Char_ord" "HOL-Library.List_Lexorder" "HOL-Library.AList"
    "HOL-Library.Multiset"
begin

section \<open>certgraph: data model\<close>

text \<open>
  The program is a single Go file, \<^verbatim>\<open>main.go\<close>. Go strings are byte strings, so a
  hostname is a \<^typ>\<open>string\<close> (a list of bytes); \<^verbatim>\<open>len\<close> is \<^const>\<open>length\<close>, and
  \<^verbatim>\<open>sort.Strings\<close> orders byte-wise lexicographically, which is the order of
  \<^typ>\<open>char list\<close> given by the two library theories imported above.
\<close>

text \<open>\<^verbatim>\<open>type DomainNode struct { Domain string; Depth int; Neighbors *[]string }\<close>:
  the pointer \<^verbatim>\<open>Neighbors\<close> is \<open>None\<close> when nil.\<close>

record DomainNode =
  Domain :: string
  Depth :: int
  Neighbors :: "string list option"

text \<open>The two fields of an \<^verbatim>\<open>x509.Certificate\<close> that the program reads:
  \<^verbatim>\<open>Subject.CommonName\<close> and \<^verbatim>\<open>DNSNames\<close>.\<close>

record Certificate =
  CommonName :: string
  DNSNames :: "string list"

text \<open>The package-level variables that \<^verbatim>\<open>main\<close> sets from the command line and that
  never change afterwards; \<open>hostFlag\<close> is the local \<^verbatim>\<open>*host\<close> of \<^verbatim>\<open>main\<close>.\<close>

record config =
  hostFlag :: string
  port :: string
  timeout :: int
  verbose :: bool
  maxDepth :: int
  parallel :: int

text \<open>
  The errors \<^verbatim>\<open>tls.DialWithDialer\<close> can return, by what \<^verbatim>\<open>checkNetErr\<close> can
  observe of them: a \<^verbatim>\<open>*net.OpError\<close> (its \<^verbatim>\<open>Op\<close> and its \<^verbatim>\<open>Timeout()\<close>), a
  \<^verbatim>\<open>syscall.Errno\<close>, any other value implementing \<^verbatim>\<open>net.Error\<close> (its \<^verbatim>\<open>Timeout()\<close>),
  and any other error (a failed handshake, for example).
\<close>

datatype go_error =
  OpError string bool
| Errno nat
| NetError bool
| OtherError

text \<open>A run-time panic of the Go program.\<close>

datatype go_panic =
  NilDereference
| NegativeWaitGroupCounter
| SendOnClosedChannel
| CloseOfClosedChannel

text \<open>
  What the program takes from outside its own source. \<open>dial\<close> is the network, as the
  program sees it through lines 238 to 240 and 245 to 247 of \<^verbatim>\<open>getPeerCerts\<close>:
  dialling a host on a port yields an error or the peer's certificate chain, leaf first.
  \<open>ToLower\<close> is the library function \<^verbatim>\<open>strings.ToLower\<close>, which maps every Unicode
  upper-case letter of a string to its lower case; the table of the letters is not part
  of the program, so the function is a parameter. Every theorem below holds for every
  such function; where a theorem relies on a property of \<^verbatim>\<open>strings.ToLower\<close>, the
  property is a hypothesis of the theorem.
\<close>

record environment =
  dial :: "string \<Rightarrow> string \<Rightarrow> go_error + Certificate list"
  ToLower :: "string \<Rightarrow> string"

section \<open>Library functions the program calls\<close>

text \<open>
  What \<^verbatim>\<open>strings.ToLower\<close> does on a string of ASCII bytes: an upper-case letter
  moves to its lower-case letter (\<^verbatim>\<open>c += 'a' - 'A'\<close>), every other byte stays.
\<close>

definition toLowerByte :: "char \<Rightarrow> char" where
  "toLowerByte c =
     (if CHR ''A'' \<le> c \<and> c \<le> CHR ''Z'' then char_of (of_char c + (32::nat)) else c)"

definition asciiLower :: "string \<Rightarrow> string" where
  "asciiLower s = map toLowerByte s"

definition isASCII :: "string \<Rightarrow> bool" where
  "isASCII s \<longleftrightarrow> list_all (\<lambda>c. (of_char c :: nat) < 128) s"

text \<open>Two properties of \<^verbatim>\<open>strings.ToLower\<close>: on a string of ASCII bytes it is the
  function above, and lowercasing a lowercased string changes nothing.\<close>

definition lowersASCII :: "(string \<Rightarrow> string) \<Rightarrow> bool" where
  "lowersASCII lower \<longleftrightarrow> (\<forall>s. isASCII s \<longrightarrow> lower s = asciiLower s)"

definition idempotentLower :: "(string \<Rightarrow> string) \<Rightarrow> bool" where
  "idempotentLower lower \<longleftrightarrow> (\<forall>s. lower (lower s) = lower s)"

text \<open>Linux values of the \<^verbatim>\<open>syscall\<close> constants; \<^verbatim>\<open>Errno.Timeout()\<close> is true for
  \<^verbatim>\<open>EAGAIN\<close>, \<^verbatim>\<open>EWOULDBLOCK\<close> (the same number) and \<^verbatim>\<open>ETIMEDOUT\<close>.\<close>

definition EAGAIN :: nat where "EAGAIN = 11"
definition ETIMEDOUT :: nat where "ETIMEDOUT = 110"
definition ECONNREFUSED :: nat where "ECONNREFUSED = 111"

text \<open>\<^verbatim>\<open>netError, ok := err.(net.Error); ok && netError.Timeout()\<close>.\<close>

fun isNetTimeout :: "go_error \<Rightarrow> bool" where
  "isNetTimeout (OpError opn t) = t"
| "isNetTimeout (Errno n) = (n = EAGAIN \<or> n = ETIMEDOUT)"
| "isNetTimeout (NetError t) = t"
| "isNetTimeout OtherError = False"

section \<open>The sequential functions of main.go\<close>

text \<open>
  \<^verbatim>\<open>func v(a ...interface{})\<close> prints its arguments on standard error when
  \<^verbatim>\<open>verbose\<close> is set. The line printed is the model's value: \<open>None\<close> when nothing is
  printed.
\<close>

definition v :: "bool \<Rightarrow> string \<Rightarrow> string option" where
  "v vb line = (if vb then Some line else None)"

text \<open>
  \<^verbatim>\<open>func checkNetErr(err error, domain string) bool\<close>, lines 49 to 71. The result is
  the line logged (if any) and the boolean returned; \<open>None\<close> is the nil error.
\<close>

fun checkNetErr :: "bool \<Rightarrow> go_error option \<Rightarrow> string \<Rightarrow> string option \<times> bool" where
  "checkNetErr vb None domain = (None, False)"
| "checkNetErr vb (Some err) domain =
     (if isNetTimeout err then (v vb (''Timeout '' @ domain), True)
      else (case err of
              OpError opn t \<Rightarrow>
                (if opn = ''dial'' then (v vb (''Unknown host '' @ domain), True)
                 else if opn = ''read'' then (v vb (''Connection refused '' @ domain), True)
                 else (None, True))
            | Errno n \<Rightarrow>
                (if n = ECONNREFUSED then (v vb (''Connection refused '' @ domain), True)
                 else (None, True))
            | _ \<Rightarrow> (None, True)))"

text \<open>\<^verbatim>\<open>func directDomain(domain string) string\<close>, lines 76 to 84.\<close>

definition directDomain :: "string \<Rightarrow> string" where
  "directDomain domain =
     (if length domain < 3 then domain
      else if take 2 domain = ''*.'' then drop 2 domain
      else domain)"

text \<open>
  \<^verbatim>\<open>func getPeerCerts(host string) []*x509.Certificate\<close>, lines 237 to 248. When
  \<^verbatim>\<open>checkNetErr\<close> returns false the function goes on to \<^verbatim>\<open>conn.Close()\<close>; with a
  non-nil error \<^verbatim>\<open>conn\<close> is nil there, which is the panic branch below.
\<close>

definition getPeerCerts :: "environment \<Rightarrow> config \<Rightarrow> string \<Rightarrow> go_panic + Certificate list" where
  "getPeerCerts env cfg host =
     (case dial env host (port cfg) of
        Inl err \<Rightarrow>
          (if snd (checkNetErr (verbose cfg) (Some err) host) then Inr []
           else Inl NilDereference)
      | Inr chain \<Rightarrow>
          (if snd (checkNetErr (verbose cfg) None host) then Inr []
           else Inr chain))"

text \<open>
  \<^verbatim>\<open>func BFSPeers(host string) []string\<close>, lines 201 to 235. The local
  \<^verbatim>\<open>domainMap\<close> is a \<^verbatim>\<open>map[string]bool\<close> used as a set: it is modelled by the list of
  its keys, without repetition. Go ranges over a map in an unspecified order; the order
  of the key list stands for one such order, and lemma \<open>sort_any_order\<close> below shows
  that the sorted result does not depend on it.
\<close>

definition addDNSNames :: "environment \<Rightarrow> string list \<Rightarrow> string list \<Rightarrow> string list" where
  "addDNSNames env names domainMap =
     fold (\<lambda>domain m. if length domain > 0 then List.insert (ToLower env domain) m else m)
       names domainMap"

definition BFSPeers :: "environment \<Rightarrow> config \<Rightarrow> string \<Rightarrow> go_panic + string list" where
  "BFSPeers env cfg host =
     (case getPeerCerts env cfg host of
        Inl p \<Rightarrow> Inl p
      | Inr certs \<Rightarrow>
          (if length certs = 0 then Inr []
           else
             let cn = ToLower env (CommonName (hd certs));
                 domainMap0 = (if length cn > 0 then List.insert cn [] else []);
                 domainMap = fold (\<lambda>cert m. addDNSNames env (DNSNames cert) m) certs domainMap0
             in Inr (sort domainMap)))"

text \<open>The set of names the spec describes for a certificate chain, for a lowercasing
  function: the lowercased CommonName of the leaf if it is not empty, and every
  non-empty DNS name, lowercased.\<close>

definition observedNames :: "(string \<Rightarrow> string) \<Rightarrow> Certificate list \<Rightarrow> string set" where
  "observedNames lower certs =
     (case certs of
        [] \<Rightarrow> {}
      | leaf # _ \<Rightarrow> (if lower (CommonName leaf) = [] then {} else {lower (CommonName leaf)}))
     \<union> set (map lower (filter (\<lambda>d. d \<noteq> []) (concat (map DNSNames certs))))"

text \<open>The certificate of the spec's example, behind every host, with the ASCII
  lowercasing.\<close>

definition spec_example_env :: environment where
  "spec_example_env =
     \<lparr>dial = (\<lambda>host prt. Inr [\<lparr>CommonName = ''a.test'', DNSNames = [''B.Test'', ''a.test'']\<rparr>]),
      ToLower = asciiLower\<rparr>"

text \<open>
  The canonical form in the words of the spec, for a lowercasing function: the lowercase
  hostname with a leading \<open>*.\<close> removed.
\<close>

definition canonical_spec :: "(string \<Rightarrow> string) \<Rightarrow> string \<Rightarrow> string" where
  "canonical_spec lower hostname =
     (let l = lower hostname in if take 2 l = ''*.'' then drop 2 l else l)"

section \<open>The concurrent traversal: BFS\<close>

text \<open>
  \<^verbatim>\<open>func BFS(root string)\<close>, lines 127 to 199, starts two goroutines (the dispatcher
  loop of lines 141 to 179 and the saving loop of lines 183 to 194); the dispatcher starts
  one further goroutine per admitted node (lines 158 to 174). The model is a transition
  system over the shared variables, the channels and the position of every goroutine.
  A goroutine takes one step per synchronising operation (a channel send or receive,
  \<^verbatim>\<open>wg.Add\<close>, \<^verbatim>\<open>wg.Done\<close>, \<^verbatim>\<open>wg.Wait\<close>, \<^verbatim>\<open>close\<close>) and per call of \<open>BFSPeers\<close>; the
  statements of the dispatcher after its receive touch only variables that no other
  goroutine touches and are part of that step. A step that would block is \<open>None\<close>. Any
  interleaving of the steps is a run. The diagnostic output of \<^verbatim>\<open>v\<close> inside \<open>BFS\<close> is
  not recorded.
\<close>

text \<open>Where a worker goroutine (lines 158 to 174) stands:
  before \<^verbatim>\<open><-threadPass\<close> (line 161);
  holding a pass, before the call of \<open>BFSPeers\<close> (lines 165 to 168);
  before the send on \<^verbatim>\<open>domainGraphChan\<close> (line 169), with the local \<^verbatim>\<open>neighbors\<close>;
  at the head of the loop of line 170, with the neighbours still to range over (when
  none is left, the deferred \<^verbatim>\<open>threadPass <- true\<close> of line 162 is next);
  after \<^verbatim>\<open>wg.Add(1)\<close> and before the send on \<^verbatim>\<open>domainChan\<close> (line 172);
  before the deferred \<^verbatim>\<open>wg.Done()\<close> of line 159.\<close>

datatype worker_pc =
  AwaitPass
| Visit
| Emit "string list"
| Ranging "string list"
| Enqueue string "string list"
| Finish

text \<open>Where the caller of \<open>BFS\<close> stands: lines 196, 197, 198, and returned.\<close>

datatype main_pc = MainWait | MainClose | MainRecvDone | MainReturned

text \<open>Where the saving goroutine stands: the receive of line 185, the send of line 190
  (unbuffered, so it completes together with the receive of line 198), and returned.\<close>

datatype agg_pc = AggLoop | AggSendDone | AggReturned

text \<open>
  The package-level variables \<^verbatim>\<open>markedDomains\<close>, \<^verbatim>\<open>domainGraph\<close> and \<^verbatim>\<open>depth\<close>, the
  locals of \<open>BFS\<close> (the counter of \<^verbatim>\<open>wg\<close>, the buffers of the channels, the number of
  values in \<^verbatim>\<open>threadPass\<close>), and the goroutines. \<^verbatim>\<open>domainGraph\<close> is an association
  list, written by \<open>AList.update\<close>. \<open>dialled\<close> records every call of
  \<^verbatim>\<open>tls.DialWithDialer\<close> (one per call of \<open>getPeerCerts\<close>), \<open>panicked\<close> a panic.
\<close>

record bfs_state =
  markedDomains :: "string set"
  domainGraph :: "(string \<times> DomainNode) list"
  depth :: int
  wg :: int
  domainChan :: "DomainNode list"
  domainGraphChan :: "DomainNode list"
  graphChanClosed :: bool
  threadPass :: nat
  workers :: "(DomainNode \<times> worker_pc) list"
  mainAt :: main_pc
  aggAt :: agg_pc
  dialled :: "string list"
  panicked :: "go_panic option"

text \<open>The state when line 141 is reached: lines 129 to 140 have run, with the
  package-level variables as the program starts with them. (\<open>main\<close> calls \<open>BFS\<close> only
  with \<^verbatim>\<open>parallel\<close> at least 1; line 134 panics on a negative capacity.)\<close>

definition BFS_init :: "config \<Rightarrow> string \<Rightarrow> bfs_state" where
  "BFS_init cfg root =
     \<lparr>markedDomains = {}, domainGraph = [], depth = 0, wg = 1,
      domainChan = [\<lparr>Domain = root, Depth = 0, Neighbors = None\<rparr>],
      domainGraphChan = [], graphChanClosed = False,
      threadPass = nat (parallel cfg), workers = [],
      mainAt = MainWait, aggAt = AggLoop, dialled = [], panicked = None\<rparr>"

text \<open>\<^verbatim>\<open>wg.Done()\<close>: the counter goes down by one; a negative counter panics.\<close>

definition wgDone :: "bfs_state \<Rightarrow> bfs_state" where
  "wgDone s =
     (if wg s - 1 < 0 then s\<lparr>panicked := Some NegativeWaitGroupCounter\<rparr>
      else s\<lparr>wg := wg s - 1\<rparr>)"

text \<open>Lines 151 to 153.\<close>

definition noteDepth :: "DomainNode \<Rightarrow> bfs_state \<Rightarrow> bfs_state" where
  "noteDepth domainNode s =
     (if Depth domainNode > depth s then s\<lparr>depth := Depth domainNode\<rparr> else s)"

text \<open>One iteration of the dispatcher loop, lines 142 to 178.\<close>

definition dispatcher_step :: "config \<Rightarrow> bfs_state \<Rightarrow> bfs_state option" where
  "dispatcher_step cfg s =
     (case domainChan s of
        [] \<Rightarrow> None
      | domainNode # queued \<Rightarrow>
          let s1 = s\<lparr>domainChan := queued\<rparr> in
          if Depth domainNode > maxDepth cfg then Some (wgDone s1)
          else
            let s2 = noteDepth domainNode s1;
                dDomain = directDomain (Domain domainNode)
            in if dDomain \<notin> markedDomains s2
               then Some (s2\<lparr>markedDomains := insert dDomain (markedDomains s2),
                              workers := workers s2 @ [(domainNode, AwaitPass)]\<rparr>)
               else Some (wgDone s2))"

text \<open>One step of the worker goroutine at position \<open>i\<close> of \<open>workers\<close>, lines 158 to
  174.\<close>

definition worker_step :: "config \<Rightarrow> environment \<Rightarrow> nat \<Rightarrow> bfs_state \<Rightarrow> bfs_state option" where
  "worker_step cfg env i s =
     (case workers s ! i of (domainNode, pc) \<Rightarrow>
        (case pc of
           AwaitPass \<Rightarrow>
             (if threadPass s = 0 then None
              else Some (s\<lparr>threadPass := threadPass s - 1,
                           workers := (workers s)[i := (domainNode, Visit)]\<rparr>))
         | Visit \<Rightarrow>
             (let dDomain = directDomain (Domain domainNode) in
              case BFSPeers env cfg dDomain of
                Inl p \<Rightarrow> Some (s\<lparr>dialled := dialled s @ [dDomain], panicked := Some p\<rparr>)
              | Inr neighbors \<Rightarrow>
                  Some (s\<lparr>dialled := dialled s @ [dDomain],
                          workers := (workers s)
                            [i := (domainNode\<lparr>Neighbors := Some neighbors\<rparr>, Emit neighbors)]\<rparr>))
         | Emit neighbors \<Rightarrow>
             (if graphChanClosed s then Some (s\<lparr>panicked := Some SendOnClosedChannel\<rparr>)
              else if length (domainGraphChan s) < 5
              then Some (s\<lparr>domainGraphChan := domainGraphChan s @ [domainNode],
                           workers := (workers s)[i := (domainNode, Ranging neighbors)]\<rparr>)
              else None)
         | Ranging [] \<Rightarrow>
             (if threadPass s < nat (parallel cfg)
              then Some (s\<lparr>threadPass := threadPass s + 1,
                           workers := (workers s)[i := (domainNode, Finish)]\<rparr>)
              else None)
         | Ranging (neighbor # rest) \<Rightarrow>
             Some (s\<lparr>wg := wg s + 1,
                     workers := (workers s)[i := (domainNode, Enqueue neighbor rest)]\<rparr>)
         | Enqueue neighbor rest \<Rightarrow>
             (if length (domainChan s) < 5
              then Some (s\<lparr>domainChan := domainChan s @
                             [\<lparr>Domain = neighbor, Depth = Depth domainNode + 1, Neighbors = None\<rparr>],
                           workers := (workers s)[i := (domainNode, Ranging rest)]\<rparr>)
              else None)
         | Finish \<Rightarrow>
             Some (wgDone (s\<lparr>workers := take i (workers s) @ drop (Suc i) (workers s)\<rparr>))))"

text \<open>One iteration of the saving loop, lines 184 to 193, up to the send of line 190.\<close>

definition aggregator_step :: "bfs_state \<Rightarrow> bfs_state option" where
  "aggregator_step s =
     (case aggAt s of
        AggLoop \<Rightarrow>
          (case domainGraphChan s of
             domainNode # queued \<Rightarrow>
               Some (s\<lparr>domainGraphChan := queued,
                       domainGraph := AList.update (directDomain (Domain domainNode)) domainNode
                                        (domainGraph s)\<rparr>)
           | [] \<Rightarrow> (if graphChanClosed s then Some (s\<lparr>aggAt := AggSendDone\<rparr>) else None))
      | _ \<Rightarrow> None)"

text \<open>Lines 196 to 198. The receive of line 198 completes with the send of line 190.\<close>

definition main_step :: "bfs_state \<Rightarrow> bfs_state option" where
  "main_step s =
     (case mainAt s of
        MainWait \<Rightarrow> (if wg s = 0 then Some (s\<lparr>mainAt := MainClose\<rparr>) else None)
      | MainClose \<Rightarrow>
          (if graphChanClosed s then Some (s\<lparr>panicked := Some CloseOfClosedChannel\<rparr>)
           else Some (s\<lparr>graphChanClosed := True, mainAt := MainRecvDone\<rparr>))
      | MainRecvDone \<Rightarrow>
          (if aggAt s = AggSendDone then Some (s\<lparr>mainAt := MainReturned, aggAt := AggReturned\<rparr>)
           else None)
      | MainReturned \<Rightarrow> None)"

datatype thread = Dispatcher | Worker nat | Aggregator | Caller

text \<open>The step of a goroutine chosen by the scheduler; a panic ends the process.\<close>

definition fire :: "config \<Rightarrow> environment \<Rightarrow> thread \<Rightarrow> bfs_state \<Rightarrow> bfs_state option" where
  "fire cfg env t s =
     (if panicked s \<noteq> None then None
      else case t of
        Dispatcher \<Rightarrow> dispatcher_step cfg s
      | Worker i \<Rightarrow> (if i < length (workers s) then worker_step cfg env i s else None)
      | Aggregator \<Rightarrow> aggregator_step s
      | Caller \<Rightarrow> main_step s)"

text \<open>The states some interleaving reaches from the call \<open>BFS(root)\<close>.\<close>

inductive reachable :: "config \<Rightarrow> environment \<Rightarrow> string \<Rightarrow> bfs_state \<Rightarrow> bool"
  for cfg :: config and env :: environment and root :: string where
  start: "reachable cfg env root (BFS_init cfg root)"
| step: "reachable cfg env root s \<Longrightarrow> fire cfg env t s = Some s' \<Longrightarrow> reachable cfg env root s'"

text \<open>A run under a given schedule; \<open>None\<close> when the schedule picks a blocked
  goroutine.\<close>

fun run :: "config \<Rightarrow> environment \<Rightarrow> thread list \<Rightarrow> bfs_state \<Rightarrow> bfs_state option" where
  "run cfg env [] s = Some s"
| "run cfg env (t # ts) s =
     (case fire cfg env t s of None \<Rightarrow> None | Some s' \<Rightarrow> run cfg env ts s')"

text \<open>The worker goroutines that hold a pass, and those inside the call of the
  resolver.\<close>

fun holdsPass :: "worker_pc \<Rightarrow> bool" where
  "holdsPass AwaitPass = False"
| "holdsPass Finish = False"
| "holdsPass _ = True"

definition passHolders :: "bfs_state \<Rightarrow> nat" where
  "passHolders s = length (filter (\<lambda>w. holdsPass (snd w)) (workers s))"

definition inFlight :: "bfs_state \<Rightarrow> nat" where
  "inFlight s = length (filter (\<lambda>w. snd w = Visit) (workers s))"

section \<open>Invariants of the traversal\<close>

text \<open>The canonical domain of a node: what the dispatcher marks (line 155), the
  worker resolves (line 165) and the saving goroutine uses as key (line 187).\<close>

definition canon :: "DomainNode \<Rightarrow> string" where
  "canon domainNode = directDomain (Domain domainNode)"

fun awaitsEnqueue :: "worker_pc \<Rightarrow> bool" where
  "awaitsEnqueue (Enqueue neighbor rest) = True"
| "awaitsEnqueue _ = False"

text \<open>
  Synchronisation: no panic; the counter of \<^verbatim>\<open>wg\<close> is the number of frontier items
  in \<^verbatim>\<open>domainChan\<close>, plus the worker goroutines alive, plus the items a worker has
  counted by \<^verbatim>\<open>wg.Add(1)\<close> and not yet sent; the passes in \<^verbatim>\<open>threadPass\<close> and the
  passes held add up to \<^verbatim>\<open>parallel\<close>; \<^verbatim>\<open>wg.Wait()\<close> is passed only at counter zero;
  \<^verbatim>\<open>domainGraphChan\<close> is closed exactly after line 197; the saving goroutine leaves its
  loop only on the closed and drained channel; the buffers respect their capacity.
\<close>

definition inv_sync :: "config \<Rightarrow> bfs_state \<Rightarrow> bool" where
  "inv_sync cfg s \<longleftrightarrow>
     panicked s = None
     \<and> wg s = int (length (domainChan s)) + int (length (workers s))
              + int (length (filter (\<lambda>w. awaitsEnqueue (snd w)) (workers s)))
     \<and> threadPass s + passHolders s = nat (parallel cfg)
     \<and> (mainAt s \<noteq> MainWait \<longrightarrow> wg s = 0)
     \<and> (graphChanClosed s \<longleftrightarrow> mainAt s = MainRecvDone \<or> mainAt s = MainReturned)
     \<and> (aggAt s \<noteq> AggLoop \<longrightarrow> graphChanClosed s \<and> domainGraphChan s = [])
     \<and> (aggAt s = AggReturned \<longleftrightarrow> mainAt s = MainReturned)
     \<and> length (domainChan s) \<le> 5 \<and> length (domainGraphChan s) \<le> 5"

text \<open>A node whose \<^verbatim>\<open>Neighbors\<close> is set, to what \<open>BFSPeers\<close> returns for its canonical
  domain.\<close>

definition resolved :: "config \<Rightarrow> environment \<Rightarrow> DomainNode \<Rightarrow> bool" where
  "resolved cfg env domainNode \<longleftrightarrow>
     (case Neighbors domainNode of
        None \<Rightarrow> False
      | Some ns \<Rightarrow> BFSPeers env cfg (canon domainNode) = Inr ns)"

fun workerOk :: "config \<Rightarrow> environment \<Rightarrow> DomainNode \<times> worker_pc \<Rightarrow> bool" where
  "workerOk cfg env (domainNode, AwaitPass) = (Depth domainNode \<le> maxDepth cfg)"
| "workerOk cfg env (domainNode, Visit) = (Depth domainNode \<le> maxDepth cfg)"
| "workerOk cfg env (domainNode, Emit neighbors) =
     (Depth domainNode \<le> maxDepth cfg \<and> resolved cfg env domainNode
      \<and> Neighbors domainNode = Some neighbors)"
| "workerOk cfg env (domainNode, pc) =
     (Depth domainNode \<le> maxDepth cfg \<and> resolved cfg env domainNode)"

text \<open>
  Nodes: every node a worker holds is within the depth bound; from line 168 on its
  \<^verbatim>\<open>Neighbors\<close> is set; every node sent to the saving goroutine or saved is within the
  depth bound and has its \<^verbatim>\<open>Neighbors\<close> set; a saved node is saved under its canonical
  domain.
\<close>

definition inv_nodes :: "config \<Rightarrow> environment \<Rightarrow> bfs_state \<Rightarrow> bool" where
  "inv_nodes cfg env s \<longleftrightarrow>
     list_all (workerOk cfg env) (workers s)
     \<and> list_all (\<lambda>n. Depth n \<le> maxDepth cfg \<and> resolved cfg env n) (domainGraphChan s)
     \<and> list_all (\<lambda>(k, n). k = canon n \<and> Depth n \<le> maxDepth cfg \<and> resolved cfg env n)
         (domainGraph s)"

fun notDialled :: "worker_pc \<Rightarrow> bool" where
  "notDialled AwaitPass = True"
| "notDialled Visit = True"
| "notDialled _ = False"

fun notEmitted :: "worker_pc \<Rightarrow> bool" where
  "notEmitted AwaitPass = True"
| "notEmitted Visit = True"
| "notEmitted (Emit neighbors) = True"
| "notEmitted _ = False"

text \<open>The canonical domains admitted and not yet dialled, and those admitted whose
  node has not yet been sent to the saving goroutine.\<close>

definition toDial :: "bfs_state \<Rightarrow> string list" where
  "toDial s = map (\<lambda>w. canon (fst w)) (filter (\<lambda>w. notDialled (snd w)) (workers s))"

definition toEmit :: "bfs_state \<Rightarrow> string list" where
  "toEmit s = map (\<lambda>w. canon (fst w)) (filter (\<lambda>w. notEmitted (snd w)) (workers s))"

text \<open>
  Uniqueness: a canonical domain is waiting to be dialled or has been dialled at most
  once; a canonical domain has at most one node among those not yet sent, those in
  \<^verbatim>\<open>domainGraphChan\<close> and those saved; all of them are marked, and so is the
  canonical domain of every worker.
\<close>

definition inv_unique :: "bfs_state \<Rightarrow> bool" where
  "inv_unique s \<longleftrightarrow>
     distinct (toDial s @ dialled s)
     \<and> set (toDial s @ dialled s) \<subseteq> markedDomains s
     \<and> distinct (toEmit s @ map canon (domainGraphChan s) @ map fst (domainGraph s))
     \<and> set (toEmit s @ map canon (domainGraphChan s) @ map fst (domainGraph s))
         \<subseteq> markedDomains s
     \<and> list_all (\<lambda>w. canon (fst w) \<in> markedDomains s) (workers s)"

text \<open>
  Dialled: the canonical domain of every worker past the call of \<open>BFSPeers\<close>, of every
  node sent to the saving goroutine and of every saved node is in the record of calls
  of \<^verbatim>\<open>tls.DialWithDialer\<close>.
\<close>

definition inv_dialled :: "bfs_state \<Rightarrow> bool" where
  "inv_dialled s \<longleftrightarrow>
     list_all (\<lambda>w. notDialled (snd w) \<or> canon (fst w) \<in> set (dialled s)) (workers s)
     \<and> list_all (\<lambda>n. canon n \<in> set (dialled s)) (domainGraphChan s)
     \<and> list_all (\<lambda>(k, n). k \<in> set (dialled s)) (domainGraph s)"

section \<open>The work that remains\<close>

text \<open>
  A finite certificate graph: a finite set of canonical domains that holds the seed and,
  with every domain, the canonical form of every name its certificate declares.
\<close>

definition certGraphWithin :: "config \<Rightarrow> environment \<Rightarrow> string \<Rightarrow> string set \<Rightarrow> bool" where
  "certGraphWithin cfg env root U \<longleftrightarrow>
     finite U \<and> directDomain root \<in> U
     \<and> (\<forall>d\<in>U. case BFSPeers env cfg d of
                  Inl p \<Rightarrow> True
                | Inr ns \<Rightarrow> list_all (\<lambda>n. directDomain n \<in> U) ns)"

text \<open>The names a worker still has to put on the frontier.\<close>

fun pendingNames :: "worker_pc \<Rightarrow> string list" where
  "pendingNames (Emit neighbors) = neighbors"
| "pendingNames (Ranging rest) = rest"
| "pendingNames (Enqueue neighbor rest) = neighbor # rest"
| "pendingNames _ = []"

definition inv_within :: "string set \<Rightarrow> bfs_state \<Rightarrow> bool" where
  "inv_within U s \<longleftrightarrow>
     markedDomains s \<subseteq> U
     \<and> list_all (\<lambda>n. canon n \<in> U) (domainChan s)
     \<and> list_all (\<lambda>w. canon (fst w) \<in> U \<and> list_all (\<lambda>d. directDomain d \<in> U) (pendingNames (snd w)))
         (workers s)"

text \<open>
  Lowercase: every hostname on the frontier, held by a worker, still to be put on the
  frontier, sent to the saving goroutine or saved is its own lowercase form. \<open>main\<close>
  lowercases the seed (line 114) and \<open>BFSPeers\<close> every name it returns (lines 214 and
  223); \<open>directDomain\<close> relies on it.
\<close>

definition lowercase :: "(string \<Rightarrow> string) \<Rightarrow> string \<Rightarrow> bool" where
  "lowercase lower hostname \<longleftrightarrow> lower hostname = hostname"

definition inv_lower :: "(string \<Rightarrow> string) \<Rightarrow> bfs_state \<Rightarrow> bool" where
  "inv_lower lower s \<longleftrightarrow>
     list_all (\<lambda>n. lowercase lower (Domain n)) (domainChan s)
     \<and> list_all (\<lambda>w. lowercase lower (Domain (fst w))
                     \<and> list_all (lowercase lower) (pendingNames (snd w)))
         (workers s)
     \<and> list_all (\<lambda>n. lowercase lower (Domain n)) (domainGraphChan s)
     \<and> list_all (\<lambda>(k, n). lowercase lower (Domain n)) (domainGraph s)"

text \<open>
  Marked: every canonical domain the dispatcher has marked has a node not yet sent to
  the saving goroutine, in \<^verbatim>\<open>domainGraphChan\<close> or saved.
\<close>

definition inv_marked :: "bfs_state \<Rightarrow> bool" where
  "inv_marked s \<longleftrightarrow>
     markedDomains s
       \<subseteq> set (toEmit s @ map canon (domainGraphChan s) @ map fst (domainGraph s))"

text \<open>The number of neighbours of a canonical domain.\<close>

definition fanout :: "config \<Rightarrow> environment \<Rightarrow> string \<Rightarrow> nat" where
  "fanout cfg env d = (case BFSPeers env cfg d of Inl p \<Rightarrow> 0 | Inr ns \<Rightarrow> length ns)"

text \<open>
  The steps a worker goroutine and the nodes it produces still cost: its own steps, one
  step of the saving goroutine for its node, and one step of the dispatcher for every
  frontier item it sends.
\<close>

fun workerCost :: "config \<Rightarrow> environment \<Rightarrow> DomainNode \<times> worker_pc \<Rightarrow> nat" where
  "workerCost cfg env (domainNode, AwaitPass) = 6 + 3 * fanout cfg env (canon domainNode)"
| "workerCost cfg env (domainNode, Visit) = 5 + 3 * fanout cfg env (canon domainNode)"
| "workerCost cfg env (domainNode, Emit neighbors) = 4 + 3 * length neighbors"
| "workerCost cfg env (domainNode, Ranging rest) = 2 + 3 * length rest"
| "workerCost cfg env (domainNode, Enqueue neighbor rest) = 4 + 3 * length rest"
| "workerCost cfg env (domainNode, Finish) = 1"

fun mainCost :: "main_pc \<Rightarrow> nat" where
  "mainCost MainWait = 3"
| "mainCost MainClose = 2"
| "mainCost MainRecvDone = 1"
| "mainCost MainReturned = 0"

fun aggCost :: "agg_pc \<Rightarrow> nat" where
  "aggCost AggLoop = 1"
| "aggCost _ = 0"

text \<open>An upper bound on the number of steps left, for a certificate graph within
  \<open>U\<close>: every domain of \<open>U\<close> not yet marked may still get a worker.\<close>

definition remaining :: "string set \<Rightarrow> config \<Rightarrow> environment \<Rightarrow> bfs_state \<Rightarrow> nat" where
  "remaining U cfg env s =
     (\<Sum>d \<in> U - markedDomains s. 6 + 3 * fanout cfg env d)
     + length (domainChan s)
     + sum_list (map (workerCost cfg env) (workers s))
     + length (domainGraphChan s)
     + mainCost (mainAt s) + aggCost (aggAt s)"

section \<open>printGraph and main\<close>

text \<open>\<^verbatim>\<open>func printGraph()\<close>, lines 86 to 97. A printed line is the domain, the depth
  and the neighbours; dereferencing a nil pointer panics.\<close>

fun printLines ::
  "(string \<times> DomainNode) list \<Rightarrow> string list \<Rightarrow> go_panic + (string \<times> int \<times> string list) list" where
  "printLines g [] = Inr []"
| "printLines g (domain # domains) =
     (case map_of g domain of
        None \<Rightarrow> Inl NilDereference
      | Some node \<Rightarrow>
          (case Neighbors node of
             None \<Rightarrow> Inl NilDereference
           | Some ns \<Rightarrow>
               (case printLines g domains of
                  Inl p \<Rightarrow> Inl p
                | Inr ls \<Rightarrow> Inr ((domain, Depth node, ns) # ls))))"

definition printGraph :: "(string \<times> DomainNode) list \<Rightarrow> go_panic + (string \<times> int \<times> string list) list" where
  "printGraph g = printLines g (sort (map fst g))"

text \<open>What a run of \<open>main\<close> (lines 100 to 125) leaves behind: the line of line 110 on
  standard error, the state in which \<open>BFS\<close> returned or panicked if \<open>BFS\<close> was called,
  the lines \<open>printGraph\<close> printed, and a panic if there was one.\<close>

record outcome =
  fatal :: "string option"
  bfs :: "bfs_state option"
  printed :: "(string \<times> int \<times> string list) list"
  crash :: "go_panic option"

text \<open>The calls of \<^verbatim>\<open>tls.DialWithDialer\<close> of a run of \<open>main\<close>.\<close>

definition networkOperations :: "outcome \<Rightarrow> string list" where
  "networkOperations out = (case bfs out of None \<Rightarrow> [] | Some s \<Rightarrow> dialled s)"

inductive main :: "config \<Rightarrow> environment \<Rightarrow> outcome \<Rightarrow> bool"
  for cfg :: config and env :: environment where
  invalid_parallel:
    "parallel cfg < 1 \<Longrightarrow>
       main cfg env \<lparr>fatal = Some ''Must enter a positive number of parallel threads'',
                     bfs = None, printed = [], crash = None\<rparr>"
| traversed:
    "\<not> parallel cfg < 1 \<Longrightarrow> reachable cfg env (ToLower env (hostFlag cfg)) s \<Longrightarrow>
       mainAt s = MainReturned \<Longrightarrow> printGraph (domainGraph s) = Inr ls \<Longrightarrow>
       main cfg env \<lparr>fatal = None, bfs = Some s, printed = ls, crash = None\<rparr>"
| print_panic:
    "\<not> parallel cfg < 1 \<Longrightarrow> reachable cfg env (ToLower env (hostFlag cfg)) s \<Longrightarrow>
       mainAt s = MainReturned \<Longrightarrow> printGraph (domainGraph s) = Inl p \<Longrightarrow>
       main cfg env \<lparr>fatal = None, bfs = Some s, printed = [], crash = Some p\<rparr>"
| bfs_panic:
    "\<not> parallel cfg < 1 \<Longrightarrow> reachable cfg env (ToLower env (hostFlag cfg)) s \<Longrightarrow>
       panicked s = Some p \<Longrightarrow>
       main cfg env \<lparr>fatal = None, bfs = Some s, printed = [], crash = Some p\<rparr>"

section \<open>Scenarios\<close>

text \<open>The defaults of the flags, with \<open>a.test\<close> as the host.\<close>

definition spec_cfg :: config where
  "spec_cfg = \<lparr>hostFlag = ''a.test'', port = ''443'', timeout = 5, verbose = False,
     maxDepth = 20, parallel = 10\<rparr>"

text \<open>The end-to-end scenario of the spec: \<open>a.test\<close> names itself and \<open>b.test\<close>,
  \<open>b.test\<close> names itself and \<open>c.test\<close>, \<open>c.test\<close> names itself; no other host answers.
  In this and the following scenarios every name is a string of ASCII bytes, on which
  \<^verbatim>\<open>strings.ToLower\<close> is \<open>asciiLower\<close>.\<close>

definition chain_dial :: "string \<Rightarrow> string \<Rightarrow> go_error + Certificate list" where
  "chain_dial host prt =
     (if host = ''a.test'' then Inr [\<lparr>CommonName = [], DNSNames = [''a.test'', ''b.test'']\<rparr>]
      else if host = ''b.test'' then Inr [\<lparr>CommonName = [], DNSNames = [''b.test'', ''c.test'']\<rparr>]
      else if host = ''c.test'' then Inr [\<lparr>CommonName = [], DNSNames = [''c.test'']\<rparr>]
      else Inl (OpError ''dial'' False))"

definition chain_env :: environment where
  "chain_env = \<lparr>dial = chain_dial, ToLower = asciiLower\<rparr>"

definition chain_schedule :: "thread list" where
  "chain_schedule =
     [Dispatcher, Worker 0, Worker 0, Worker 0, Aggregator, Worker 0, Worker 0,
      Dispatcher, Worker 0, Worker 0, Dispatcher, Worker 0, Worker 0, Worker 0,
      Worker 0, Worker 0, Aggregator, Worker 0, Worker 0, Dispatcher, Worker 0,
      Worker 0, Dispatcher, Worker 0, Worker 0, Worker 0, Worker 0, Worker 0,
      Aggregator, Worker 0, Worker 0, Dispatcher, Worker 0, Worker 0, Caller,
      Caller, Aggregator, Caller]"

definition chain_final :: bfs_state where
  "chain_final =
     \<lparr>markedDomains = {''c.test'', ''b.test'', ''a.test''},
      domainGraph =
        [(''a.test'', \<lparr>Domain = ''a.test'', Depth = 0, Neighbors = Some [''a.test'', ''b.test'']\<rparr>),
         (''b.test'', \<lparr>Domain = ''b.test'', Depth = 1, Neighbors = Some [''b.test'', ''c.test'']\<rparr>),
         (''c.test'', \<lparr>Domain = ''c.test'', Depth = 2, Neighbors = Some [''c.test'']\<rparr>)],
      depth = 3, wg = 0, domainChan = [], domainGraphChan = [],
      graphChanClosed = True, threadPass = 10, workers = [],
      mainAt = MainReturned, aggAt = AggReturned,
      dialled = [''a.test'', ''b.test'', ''c.test''], panicked = None\<rparr>"

text \<open>The same network with \<^verbatim>\<open>-depth 0\<close>.\<close>

definition shallow_cfg :: config where
  "shallow_cfg = \<lparr>hostFlag = ''a.test'', port = ''443'', timeout = 5, verbose = False,
     maxDepth = 0, parallel = 10\<rparr>"

definition shallow_schedule :: "thread list" where
  "shallow_schedule =
     [Dispatcher, Worker 0, Worker 0, Worker 0, Aggregator, Worker 0, Worker 0,
      Dispatcher, Worker 0, Worker 0, Dispatcher, Worker 0, Worker 0, Caller,
      Caller, Aggregator, Caller]"

definition shallow_final :: bfs_state where
  "shallow_final =
     \<lparr>markedDomains = {''a.test''},
      domainGraph =
        [(''a.test'', \<lparr>Domain = ''a.test'', Depth = 0, Neighbors = Some [''a.test'', ''b.test'']\<rparr>)],
      depth = 0, wg = 0, domainChan = [], domainGraphChan = [],
      graphChanClosed = True, threadPass = 10, workers = [],
      mainAt = MainReturned, aggAt = AggReturned, dialled = [''a.test''],
      panicked = None\<rparr>"

text \<open>The state after the first 10 steps of that schedule: the item of \<open>b.test\<close>, of
  depth 1, is at the head of the frontier.\<close>

definition shallow_frontier :: bfs_state where
  "shallow_frontier =
     \<lparr>markedDomains = {''a.test''},
      domainGraph =
        [(''a.test'', \<lparr>Domain = ''a.test'', Depth = 0, Neighbors = Some [''a.test'', ''b.test'']\<rparr>)],
      depth = 0, wg = 2,
      domainChan = [\<lparr>Domain = ''b.test'', Depth = 1, Neighbors = None\<rparr>],
      domainGraphChan = [], graphChanClosed = False, threadPass = 9,
      workers =
        [(\<lparr>Domain = ''a.test'', Depth = 0, Neighbors = Some [''a.test'', ''b.test'']\<rparr>,
          Ranging [])],
      mainAt = MainWait, aggAt = AggLoop, dialled = [''a.test''], panicked = None\<rparr>"

text \<open>A network where \<open>a.test\<close> names \<open>b.test\<close> twice, once as a wildcard, and
  \<open>c.test\<close>; \<open>b.test\<close> refuses the connection; run with \<^verbatim>\<open>-parallel 1\<close>.\<close>

definition single_cfg :: config where
  "single_cfg = \<lparr>hostFlag = ''a.test'', port = ''443'', timeout = 5, verbose = False,
     maxDepth = 20, parallel = 1\<rparr>"

definition mixed_dial :: "string \<Rightarrow> string \<Rightarrow> go_error + Certificate list" where
  "mixed_dial host prt =
     (if host = ''a.test''
      then Inr [\<lparr>CommonName = ''A.Test'', DNSNames = [''*.b.test'', ''b.test'', ''c.test'']\<rparr>]
      else if host = ''b.test'' then Inl (Errno ECONNREFUSED)
      else if host = ''c.test'' then Inr [\<lparr>CommonName = ''c.test'', DNSNames = []\<rparr>]
      else Inl (OpError ''dial'' False))"

definition mixed_env :: environment where
  "mixed_env = \<lparr>dial = mixed_dial, ToLower = asciiLower\<rparr>"

definition mixed_schedule :: "thread list" where
  "mixed_schedule =
     [Dispatcher, Worker 0, Worker 0, Worker 0, Worker 0, Worker 0, Dispatcher,
      Worker 0, Worker 0, Dispatcher, Worker 0, Worker 0, Dispatcher, Worker 0,
      Worker 0, Dispatcher, Worker 0, Worker 2, Worker 2, Worker 2, Worker 2,
      Worker 2, Dispatcher, Worker 2, Worker 2, Worker 1, Worker 1, Worker 1,
      Worker 1, Worker 1, Worker 0, Aggregator, Aggregator, Aggregator, Caller,
      Caller, Aggregator, Caller]"

text \<open>The state after the first 18 steps of that schedule: the worker of \<open>c.test\<close>
  holds the only pass, the worker of \<open>*.b.test\<close> waits for it.\<close>

definition mixed_busy :: bfs_state where
  "mixed_busy =
     \<lparr>markedDomains = {''c.test'', ''b.test'', ''a.test''}, domainGraph = [],
      depth = 1, wg = 3, domainChan = [],
      domainGraphChan =
        [\<lparr>Domain = ''a.test'', Depth = 0,
          Neighbors = Some [''*.b.test'', ''a.test'', ''b.test'', ''c.test'']\<rparr>],
      graphChanClosed = False, threadPass = 0,
      workers =
        [(\<lparr>Domain = ''a.test'', Depth = 0,
           Neighbors = Some [''*.b.test'', ''a.test'', ''b.test'', ''c.test'']\<rparr>, Finish),
         (\<lparr>Domain = ''*.b.test'', Depth = 1, Neighbors = None\<rparr>, AwaitPass),
         (\<lparr>Domain = ''c.test'', Depth = 1, Neighbors = None\<rparr>, Visit)],
      mainAt = MainWait, aggAt = AggLoop, dialled = [''a.test''], panicked = None\<rparr>"

definition mixed_final :: bfs_state where
  "mixed_final =
     \<lparr>markedDomains = {''c.test'', ''b.test'', ''a.test''},
      domainGraph =
        [(''a.test'', \<lparr>Domain = ''a.test'', Depth = 0,
            Neighbors = Some [''*.b.test'', ''a.test'', ''b.test'', ''c.test'']\<rparr>),
         (''c.test'', \<lparr>Domain = ''c.test'', Depth = 1, Neighbors = Some [''c.test'']\<rparr>),
         (''b.test'', \<lparr>Domain = ''*.b.test'', Depth = 1, Neighbors = Some []\<rparr>)],
      depth = 2, wg = 0, domainChan = [], domainGraphChan = [],
      graphChanClosed = True, threadPass = 1, workers = [],
      mainAt = MainReturned, aggAt = AggReturned,
      dialled = [''a.test'', ''c.test'', ''b.test''], panicked = None\<rparr>"

text \<open>The command line \<^verbatim>\<open>-host ""\<close>, with a host behind the empty name whose
  certificate names \<open>*.\<close>; no other host answers.\<close>

definition star_cfg :: config where
  "star_cfg = \<lparr>hostFlag = [], port = ''443'', timeout = 5, verbose = False,
     maxDepth = 20, parallel = 10\<rparr>"

definition star_dial :: "string \<Rightarrow> string \<Rightarrow> go_error + Certificate list" where
  "star_dial host prt =
     (if host = [] then Inr [\<lparr>CommonName = [], DNSNames = [''*.'']\<rparr>]
      else Inl (OpError ''dial'' False))"

definition star_env :: environment where
  "star_env = \<lparr>dial = star_dial, ToLower = asciiLower\<rparr>"

definition star_schedule :: "thread list" where
  "star_schedule =
     [Dispatcher, Worker 0, Worker 0, Worker 0, Aggregator, Worker 0, Worker 0,
      Dispatcher, Worker 0, Worker 0, Worker 0, Worker 0, Worker 0, Aggregator,
      Worker 0, Worker 0, Caller, Caller, Aggregator, Caller]"

definition star_final :: bfs_state where
  "star_final =
     \<lparr>markedDomains = {''*.'', []},
      domainGraph =
        [([], \<lparr>Domain = [], Depth = 0, Neighbors = Some [''*.'']\<rparr>),
         (''*.'', \<lparr>Domain = ''*.'', Depth = 1, Neighbors = Some []\<rparr>)],
      depth = 1, wg = 0, domainChan = [], domainGraphChan = [],
      graphChanClosed = True, threadPass = 10, workers = [],
      mainAt = MainReturned, aggAt = AggReturned, dialled = [[], ''*.''],
      panicked = None\<rparr>"

text \<open>The command line \<^verbatim>\<open>-parallel 0\<close>.\<close>

definition zero_cfg :: config where
  "zero_cfg = \<lparr>hostFlag = ''a.test'', port = ''443'', timeout = 5, verbose = False,
     maxDepth = 20, parallel = 0\<rparr>"

section \<open>Properties of the sequential functions\<close>

lemma of_char_toLowerByte:
  "of_char (toLowerByte c) =
     (if 65 \<le> (of_char c :: nat) \<and> (of_char c :: nat) \<le> 90 then of_char c + 32 else (of_char c :: nat))"
proof -
  have A: "(of_char (CHR ''A'') :: nat) = 65" and Z: "(of_char (CHR ''Z'') :: nat) = 90"
    by simp_all
  have up: "(CHR ''A'' \<le> c \<and> c \<le> CHR ''Z'') = (65 \<le> (of_char c :: nat) \<and> (of_char c :: nat) \<le> 90)"
    unfolding less_eq_char_def A Z ..
  show ?thesis
    unfolding toLowerByte_def up by simp
qed

lemma toLowerByte_idem [simp]: "toLowerByte (toLowerByte c) = toLowerByte c"
proof -
  have "(of_char (toLowerByte (toLowerByte c)) :: nat) = of_char (toLowerByte c)"
    unfolding of_char_toLowerByte by auto
  then show ?thesis by (simp only: of_char_eq_iff)
qed

lemma asciiLower_idem: "asciiLower (asciiLower s) = asciiLower s"
  by (simp add: asciiLower_def)

lemma idempotentLower_asciiLower: "idempotentLower asciiLower"
  by (simp add: idempotentLower_def asciiLower_idem)

lemma lowersASCII_asciiLower: "lowersASCII asciiLower"
  by (simp add: lowersASCII_def)

lemma set_addDNSNames:
  "set (addDNSNames env names m) = set m \<union> set (map (ToLower env) (filter (\<lambda>d. d \<noteq> []) names))"
  unfolding addDNSNames_def
  by (induction names arbitrary: m) auto

lemma distinct_addDNSNames: "distinct m \<Longrightarrow> distinct (addDNSNames env names m)"
  unfolding addDNSNames_def
  by (induction names arbitrary: m) auto

lemma set_fold_addDNSNames:
  "set (fold (\<lambda>cert m. addDNSNames env (DNSNames cert) m) certs m) =
     set m \<union> set (map (ToLower env) (filter (\<lambda>d. d \<noteq> []) (concat (map DNSNames certs))))"
  by (induction certs arbitrary: m) (auto simp: set_addDNSNames)

lemma distinct_fold_addDNSNames:
  "distinct m \<Longrightarrow> distinct (fold (\<lambda>cert m. addDNSNames env (DNSNames cert) m) certs m)"
  by (induction certs arbitrary: m) (auto simp: distinct_addDNSNames)

lemma sort_distinct_eq: "distinct xs \<Longrightarrow> sort xs = sorted_list_of_set (set xs)"
  by (simp add: sorted_list_of_set_sort_remdups distinct_remdups_id)

text \<open>Whatever order the keys of \<^verbatim>\<open>domainMap\<close> are appended in, \<^verbatim>\<open>sort.Strings\<close>
  produces the same slice.\<close>

lemma sort_any_order:
  fixes keys keys' :: "string list"
  shows "mset keys' = mset keys \<Longrightarrow> sort keys' = sort keys"
  by (rule properties_for_sort) simp_all

lemma checkNetErr_result: "snd (checkNetErr vb err domain) = (err \<noteq> None)"
  by (cases err) (auto split: go_error.splits)

lemma getPeerCerts_eq:
  "getPeerCerts env cfg host = Inr (case dial env host (port cfg) of Inl err \<Rightarrow> [] | Inr chain \<Rightarrow> chain)"
  unfolding getPeerCerts_def
  by (simp add: checkNetErr_result del: checkNetErr.simps split: sum.splits)

lemma BFSPeers_names:
  "getPeerCerts env cfg host = Inr certs \<Longrightarrow>
     BFSPeers env cfg host = Inr (sorted_list_of_set (observedNames (ToLower env) certs))"
proof (cases certs)
  case Nil
  assume "getPeerCerts env cfg host = Inr certs"
  with Nil show ?thesis by (simp add: BFSPeers_def observedNames_def)
next
  case (Cons leaf rest)
  assume g: "getPeerCerts env cfg host = Inr certs"
  define m0 where "m0 = (if length (ToLower env (CommonName leaf)) > 0
                         then List.insert (ToLower env (CommonName leaf)) [] else [])"
  have d0: "distinct m0" by (simp add: m0_def)
  have s0: "set m0 = (if ToLower env (CommonName leaf) = [] then {}
                      else {ToLower env (CommonName leaf)})"
    by (simp add: m0_def)
  have "BFSPeers env cfg host =
          Inr (sort (fold (\<lambda>cert m. addDNSNames env (DNSNames cert) m) certs m0))"
    using g Cons by (simp add: BFSPeers_def m0_def Let_def)
  also have "sort (fold (\<lambda>cert m. addDNSNames env (DNSNames cert) m) certs m0) =
               sorted_list_of_set (set (fold (\<lambda>cert m. addDNSNames env (DNSNames cert) m) certs m0))"
    by (rule sort_distinct_eq) (rule distinct_fold_addDNSNames [OF d0])
  also have "set (fold (\<lambda>cert m. addDNSNames env (DNSNames cert) m) certs m0)
               = observedNames (ToLower env) certs"
    unfolding set_fold_addDNSNames s0 observedNames_def using Cons by simp
  finally show ?thesis .
qed

section \<open>Claims about the sequential functions\<close>

lemma spec_example_lowered:
  assumes "lowersASCII lower"
  shows "lower ''a.test'' = ''a.test''" and "lower ''B.Test'' = ''b.test''"
proof -
  have a: "isASCII ''a.test''" and b: "isASCII ''B.Test''"
    by (simp_all add: isASCII_def)
  have la: "asciiLower ''a.test'' = ''a.test''" and lb: "asciiLower ''B.Test'' = ''b.test''"
    by code_simp+
  from assms a la show "lower ''a.test'' = ''a.test''" by (simp add: lowersASCII_def)
  from assms b lb show "lower ''B.Test'' = ''b.test''" by (simp add: lowersASCII_def)
qed

text \<open>
  Claim C5. For every certificate chain the resolver returns and every lowercasing
  function, the neighbour list that \<open>BFSPeers\<close> derives is the lowercased non-empty
  CommonName of the leaf together with every non-empty DNS name, lowercased, without
  repetition and in ascending byte-wise order (\<open>sorted_list_of_set\<close> is the ascending
  list of a finite set, each element once). For the certificate with CN \<open>a.test\<close> and
  SAN \<open>B.Test\<close>, \<open>a.test\<close>, and a lowercasing function that is \<^verbatim>\<open>strings.ToLower\<close> on
  ASCII names, the list is \<open>a.test\<close>, \<open>b.test\<close>.
\<close>

theorem BFSPeers_sorted_dedup_lowercase:
  "(getPeerCerts env cfg host = Inr certs \<longrightarrow>
      BFSPeers env cfg host = Inr (sorted_list_of_set (observedNames (ToLower env) certs)))
   \<and> (lowersASCII (ToLower env)
        \<and> dial env host (port cfg)
            = Inr [\<lparr>CommonName = ''a.test'', DNSNames = [''B.Test'', ''a.test'']\<rparr>] \<longrightarrow>
      BFSPeers env cfg host = Inr [''a.test'', ''b.test''])"
proof (intro conjI impI)
  assume "getPeerCerts env cfg host = Inr certs"
  then show "BFSPeers env cfg host = Inr (sorted_list_of_set (observedNames (ToLower env) certs))"
    by (rule BFSPeers_names)
next
  assume h: "lowersASCII (ToLower env)
        \<and> dial env host (port cfg)
            = Inr [\<lparr>CommonName = ''a.test'', DNSNames = [''B.Test'', ''a.test'']\<rparr>]"
  then have l: "ToLower env ''a.test'' = ''a.test''" "ToLower env ''B.Test'' = ''b.test''"
    by (simp_all add: spec_example_lowered)
  from h l show "BFSPeers env cfg host = Inr [''a.test'', ''b.test'']"
    by (simp add: BFSPeers_def getPeerCerts_eq addDNSNames_def Let_def)
qed

theorem BFSPeers_sorted_dedup_lowercase_witness:
  "BFSPeers spec_example_env spec_cfg ''a.test'' = Inr [''a.test'', ''b.test'']
   \<and> BFSPeers spec_example_env spec_cfg ''a.test''
       = Inr (sorted_list_of_set
               (observedNames asciiLower
                  [\<lparr>CommonName = ''a.test'', DNSNames = [''B.Test'', ''a.test'']\<rparr>]))"
proof -
  let ?certs = "[\<lparr>CommonName = ''a.test'', DNSNames = [''B.Test'', ''a.test'']\<rparr>]"
  have d: "dial spec_example_env ''a.test'' (port spec_cfg) = Inr ?certs"
    by (simp add: spec_example_env_def)
  have g: "getPeerCerts spec_example_env spec_cfg ''a.test'' = Inr ?certs"
    by (simp add: getPeerCerts_eq d)
  have l: "lowersASCII (ToLower spec_example_env)"
    by (simp add: spec_example_env_def lowersASCII_asciiLower)
  have t: "ToLower spec_example_env = asciiLower"
    by (simp add: spec_example_env_def)
  from BFSPeers_sorted_dedup_lowercase [of spec_example_env spec_cfg "''a.test''" ?certs] g l d
  show ?thesis unfolding t by blast
qed

text \<open>
  Claim C6, as stated, fails on the two bytes \<open>*.\<close>, a hostname that is lowercase and
  that a certificate can name: its lowercase form with the leading \<open>*.\<close> removed is
  the empty string, and \<open>directDomain\<close> returns \<open>*.\<close>.
\<close>

theorem directDomain_keeps_bare_wildcard:
  "asciiLower ''*.'' = ''*.''
   \<and> directDomain ''*.'' = ''*.''
   \<and> canonical_spec asciiLower ''*.'' = []
   \<and> directDomain ''*.'' \<noteq> canonical_spec asciiLower ''*.''"
proof -
  have l: "asciiLower ''*.'' = ''*.''" by code_simp
  have d: "directDomain ''*.'' = ''*.''" by (simp add: directDomain_def)
  have c: "canonical_spec asciiLower ''*.'' = []"
    by (simp add: canonical_spec_def l)
  show ?thesis unfolding d c using l by simp
qed

text \<open>
  Claim C6, amended. \<open>directDomain\<close> returns its argument with a leading \<open>*.\<close>
  removed and every other byte as it is, the case of the letters included; the two
  bytes \<open>*.\<close> it returns unchanged. It does not lowercase: that is done where
  hostnames enter (line 114 of \<open>main\<close>, lines 214 and 223 of \<open>BFSPeers\<close>). So for every
  hostname that is already lowercase, whatever the lowercasing function, and is not
  \<open>*.\<close>, the result is the lowercase hostname with a leading \<open>*.\<close> removed.
\<close>

theorem directDomain_strips_wildcard_only:
  "directDomain hostname
     = (if hostname \<noteq> ''*.'' \<and> take 2 hostname = ''*.'' then drop 2 hostname else hostname)
   \<and> (lower hostname = hostname \<and> hostname \<noteq> ''*.'' \<longrightarrow>
        directDomain hostname = canonical_spec lower hostname)"
proof -
  have short: "hostname = ''*.''" if "length hostname < 3" and "take 2 hostname = ''*.''"
  proof -
    from that(2) have "length (take 2 hostname) = 2" by simp
    with that(1) have "length hostname = 2" by simp
    with that(2) show ?thesis by simp
  qed
  have 1: "directDomain hostname
     = (if hostname \<noteq> ''*.'' \<and> take 2 hostname = ''*.'' then drop 2 hostname else hostname)"
    unfolding directDomain_def using short by auto
  have 2: "directDomain hostname = canonical_spec lower hostname"
    if "lower hostname = hostname" and "hostname \<noteq> ''*.''"
    unfolding 1 canonical_spec_def Let_def using that by simp
  from 1 2 show ?thesis by blast
qed

theorem directDomain_strips_wildcard_only_witness:
  "asciiLower ''*.example.com'' = ''*.example.com''
   \<and> directDomain ''*.example.com'' = ''example.com''
   \<and> canonical_spec asciiLower ''*.example.com'' = ''example.com''
   \<and> directDomain ''*.Example.COM'' = ''Example.COM''"
proof -
  have l: "asciiLower ''*.example.com'' = ''*.example.com''" by code_simp
  have ne: "''*.example.com'' \<noteq> ''*.''" "''*.Example.COM'' \<noteq> ''*.''" by simp_all
  note T = directDomain_strips_wildcard_only
  from T [of "''*.example.com''" asciiLower] ne
  have d: "directDomain ''*.example.com'' = ''example.com''" by simp
  from T [of "''*.example.com''" asciiLower] l ne
  have "directDomain ''*.example.com'' = canonical_spec asciiLower ''*.example.com''" by blast
  with d have c: "canonical_spec asciiLower ''*.example.com'' = ''example.com''" by simp
  from T [of "''*.Example.COM''" asciiLower] ne
  have u: "directDomain ''*.Example.COM'' = ''Example.COM''" by simp
  from l d c u show ?thesis by blast
qed

text \<open>
  Claim C10. A string shorter than three bytes is returned unchanged; in particular the
  two bytes \<open>*.\<close> come back as they are, the wildcard label not removed.
\<close>

theorem directDomain_short_unchanged:
  "(length domain < 3 \<longrightarrow> directDomain domain = domain) \<and> directDomain ''*.'' = ''*.''"
  by (simp add: directDomain_def)

theorem directDomain_short_unchanged_witness:
  "length ''*a'' < 3 \<and> directDomain ''*a'' = ''*a''"
proof -
  have l: "length ''*a'' < 3" by simp
  from directDomain_short_unchanged [of "''*a''"] l show ?thesis by blast
qed

section \<open>Steps of the traversal, case by case\<close>

lemma BFSPeers_total: "\<exists>ns. BFSPeers env cfg host = Inr ns"
  using BFSPeers_names [OF getPeerCerts_eq] by blast

lemma wgDone_fields [simp]:
  "markedDomains (wgDone s) = markedDomains s"
  "domainGraph (wgDone s) = domainGraph s"
  "depth (wgDone s) = depth s"
  "domainChan (wgDone s) = domainChan s"
  "domainGraphChan (wgDone s) = domainGraphChan s"
  "graphChanClosed (wgDone s) = graphChanClosed s"
  "threadPass (wgDone s) = threadPass s"
  "workers (wgDone s) = workers s"
  "mainAt (wgDone s) = mainAt s"
  "aggAt (wgDone s) = aggAt s"
  "dialled (wgDone s) = dialled s"
  by (simp_all add: wgDone_def)

lemma wgDone_wg: "1 \<le> wg s \<Longrightarrow> wg (wgDone s) = wg s - 1"
  by (simp add: wgDone_def)

lemma wgDone_panicked: "1 \<le> wg s \<Longrightarrow> panicked (wgDone s) = panicked s"
  by (simp add: wgDone_def)

lemma noteDepth_fields [simp]:
  "markedDomains (noteDepth n s) = markedDomains s"
  "domainGraph (noteDepth n s) = domainGraph s"
  "wg (noteDepth n s) = wg s"
  "domainChan (noteDepth n s) = domainChan s"
  "domainGraphChan (noteDepth n s) = domainGraphChan s"
  "graphChanClosed (noteDepth n s) = graphChanClosed s"
  "threadPass (noteDepth n s) = threadPass s"
  "workers (noteDepth n s) = workers s"
  "mainAt (noteDepth n s) = mainAt s"
  "aggAt (noteDepth n s) = aggAt s"
  "dialled (noteDepth n s) = dialled s"
  "panicked (noteDepth n s) = panicked s"
  by (simp_all add: noteDepth_def)

lemma noteDepth_depth: "depth (noteDepth n s) = max (depth s) (Depth n)"
  by (simp add: noteDepth_def)

lemma dispatcher_cases [consumes 1, case_names too_deep admit seen]:
  assumes "dispatcher_step cfg s = Some s'"
  obtains
    (too_deep) domainNode queued where
      "domainChan s = domainNode # queued" "Depth domainNode > maxDepth cfg"
      "s' = wgDone (s\<lparr>domainChan := queued\<rparr>)"
  | (admit) domainNode queued where
      "domainChan s = domainNode # queued" "Depth domainNode \<le> maxDepth cfg"
      "directDomain (Domain domainNode) \<notin> markedDomains s"
      "s' = (noteDepth domainNode (s\<lparr>domainChan := queued\<rparr>))
              \<lparr>markedDomains := insert (directDomain (Domain domainNode)) (markedDomains s),
               workers := workers s @ [(domainNode, AwaitPass)]\<rparr>"
  | (seen) domainNode queued where
      "domainChan s = domainNode # queued" "Depth domainNode \<le> maxDepth cfg"
      "directDomain (Domain domainNode) \<in> markedDomains s"
      "s' = wgDone (noteDepth domainNode (s\<lparr>domainChan := queued\<rparr>))"
  using assms unfolding dispatcher_step_def
  by (auto simp: Let_def split: list.splits if_splits)

lemma worker_cases [consumes 2, case_names acquire visit emit_closed emit release add enqueue finish]:
  assumes "i < length (workers s)" and "worker_step cfg env i s = Some s'"
  obtains
    (acquire) pre domainNode post where
      "workers s = pre @ (domainNode, AwaitPass) # post" "length pre = i" "0 < threadPass s"
      "s' = s\<lparr>threadPass := threadPass s - 1, workers := pre @ (domainNode, Visit) # post\<rparr>"
  | (visit) pre domainNode post neighbors where
      "workers s = pre @ (domainNode, Visit) # post" "length pre = i"
      "BFSPeers env cfg (directDomain (Domain domainNode)) = Inr neighbors"
      "s' = s\<lparr>dialled := dialled s @ [directDomain (Domain domainNode)],
               workers := pre @ (domainNode\<lparr>Neighbors := Some neighbors\<rparr>, Emit neighbors) # post\<rparr>"
  | (emit_closed) pre domainNode post neighbors where
      "workers s = pre @ (domainNode, Emit neighbors) # post" "length pre = i" "graphChanClosed s"
      "s' = s\<lparr>panicked := Some SendOnClosedChannel\<rparr>"
  | (emit) pre domainNode post neighbors where
      "workers s = pre @ (domainNode, Emit neighbors) # post" "length pre = i"
      "\<not> graphChanClosed s" "length (domainGraphChan s) < 5"
      "s' = s\<lparr>domainGraphChan := domainGraphChan s @ [domainNode],
               workers := pre @ (domainNode, Ranging neighbors) # post\<rparr>"
  | (release) pre domainNode post where
      "workers s = pre @ (domainNode, Ranging []) # post" "length pre = i"
      "threadPass s < nat (parallel cfg)"
      "s' = s\<lparr>threadPass := threadPass s + 1, workers := pre @ (domainNode, Finish) # post\<rparr>"
  | (add) pre domainNode post neighbor rest where
      "workers s = pre @ (domainNode, Ranging (neighbor # rest)) # post" "length pre = i"
      "s' = s\<lparr>wg := wg s + 1, workers := pre @ (domainNode, Enqueue neighbor rest) # post\<rparr>"
  | (enqueue) pre domainNode post neighbor rest where
      "workers s = pre @ (domainNode, Enqueue neighbor rest) # post" "length pre = i"
      "length (domainChan s) < 5"
      "s' = s\<lparr>domainChan := domainChan s @
                 [\<lparr>Domain = neighbor, Depth = Depth domainNode + 1, Neighbors = None\<rparr>],
               workers := pre @ (domainNode, Ranging rest) # post\<rparr>"
  | (finish) pre domainNode post where
      "workers s = pre @ (domainNode, Finish) # post" "length pre = i"
      "s' = wgDone (s\<lparr>workers := pre @ post\<rparr>)"
proof -
  obtain domainNode pc where w: "workers s ! i = (domainNode, pc)"
    by (cases "workers s ! i")
  define pre where "pre = take i (workers s)"
  define post where "post = drop (Suc i) (workers s)"
  have ws: "workers s = pre @ (domainNode, pc) # post"
    unfolding pre_def post_def using id_take_nth_drop [OF assms(1)] w by simp
  have len: "length pre = i"
    unfolding pre_def using assms(1) by simp
  have upd: "\<And>x. (workers s)[i := x] = pre @ x # post"
    unfolding pre_def post_def using upd_conv_take_nth_drop [OF assms(1)] by simp
  obtain ns where ns: "BFSPeers env cfg (directDomain (Domain domainNode)) = Inr ns"
    using BFSPeers_total by blast
  show thesis
  proof (cases pc)
    case AwaitPass
    with assms(2) w ws len upd show thesis
      by (intro acquire [of pre domainNode post])
         (auto simp: worker_step_def split: if_splits)
  next
    case Visit
    with assms(2) w ws len upd ns show thesis
      by (intro visit [of pre domainNode post ns])
         (auto simp: worker_step_def Let_def)
  next
    case (Emit neighbors)
    show thesis
    proof (cases "graphChanClosed s")
      case True
      with Emit assms(2) w ws len upd show thesis
        by (intro emit_closed [of pre domainNode neighbors post])
           (auto simp: worker_step_def)
    next
      case False
      with Emit assms(2) w ws len upd show thesis
        by (intro emit [of pre domainNode neighbors post])
           (auto simp: worker_step_def split: if_splits)
    qed
  next
    case (Ranging todo)
    show thesis
    proof (cases todo)
      case Nil
      with Ranging assms(2) w ws len upd show thesis
        by (intro release [of pre domainNode post])
           (auto simp: worker_step_def split: if_splits)
    next
      case (Cons neighbor rest)
      with Ranging assms(2) w ws len upd show thesis
        by (intro add [of pre domainNode neighbor rest post])
           (auto simp: worker_step_def)
    qed
  next
    case (Enqueue neighbor rest)
    with assms(2) w ws len upd show thesis
      by (intro enqueue [of pre domainNode neighbor rest post])
         (auto simp: worker_step_def split: if_splits)
  next
    case Finish
    have "s' = wgDone (s\<lparr>workers := pre @ post\<rparr>)"
      using assms(2) w Finish unfolding pre_def post_def by (simp add: worker_step_def)
    with ws len Finish show thesis
      by (intro finish [of pre domainNode post]) simp_all
  qed
qed

lemma aggregator_cases [consumes 1, case_names save observe_close]:
  assumes "aggregator_step s = Some s'"
  obtains
    (save) domainNode queued where
      "aggAt s = AggLoop" "domainGraphChan s = domainNode # queued"
      "s' = s\<lparr>domainGraphChan := queued,
               domainGraph := AList.update (directDomain (Domain domainNode)) domainNode
                                (domainGraph s)\<rparr>"
  | (observe_close)
      "aggAt s = AggLoop" "domainGraphChan s = []" "graphChanClosed s"
      "s' = s\<lparr>aggAt := AggSendDone\<rparr>"
  using assms unfolding aggregator_step_def
  by (auto split: agg_pc.splits list.splits if_splits)

lemma main_cases [consumes 1, case_names wait close_closed close handshake]:
  assumes "main_step s = Some s'"
  obtains
    (wait) "mainAt s = MainWait" "wg s = 0" "s' = s\<lparr>mainAt := MainClose\<rparr>"
  | (close_closed) "mainAt s = MainClose" "graphChanClosed s"
      "s' = s\<lparr>panicked := Some CloseOfClosedChannel\<rparr>"
  | (close) "mainAt s = MainClose" "\<not> graphChanClosed s"
      "s' = s\<lparr>graphChanClosed := True, mainAt := MainRecvDone\<rparr>"
  | (handshake) "mainAt s = MainRecvDone" "aggAt s = AggSendDone"
      "s' = s\<lparr>mainAt := MainReturned, aggAt := AggReturned\<rparr>"
  using assms unfolding main_step_def
  by (auto split: main_pc.splits if_splits)


lemma fire_cases [consumes 1, case_names too_deep admit seen acquire visit emit_closed emit
    release add enqueue finish save observe_close wait close_closed close handshake]:
  assumes "fire cfg env t s = Some s'"
  obtains
    (too_deep) domainNode queued where
      "panicked s = None"
      "domainChan s = domainNode # queued" "Depth domainNode > maxDepth cfg"
      "s' = wgDone (s\<lparr>domainChan := queued\<rparr>)"
  | (admit) domainNode queued where
      "panicked s = None"
      "domainChan s = domainNode # queued" "Depth domainNode \<le> maxDepth cfg"
      "directDomain (Domain domainNode) \<notin> markedDomains s"
      "s' = (noteDepth domainNode (s\<lparr>domainChan := queued\<rparr>))
              \<lparr>markedDomains := insert (directDomain (Domain domainNode)) (markedDomains s),
               workers := workers s @ [(domainNode, AwaitPass)]\<rparr>"
  | (seen) domainNode queued where
      "panicked s = None"
      "domainChan s = domainNode # queued" "Depth domainNode \<le> maxDepth cfg"
      "directDomain (Domain domainNode) \<in> markedDomains s"
      "s' = wgDone (noteDepth domainNode (s\<lparr>domainChan := queued\<rparr>))"
  | (acquire) pre domainNode post where
      "panicked s = None"
      "workers s = pre @ (domainNode, AwaitPass) # post" "t = Worker (length pre)"
      "0 < threadPass s"
      "s' = s\<lparr>threadPass := threadPass s - 1, workers := pre @ (domainNode, Visit) # post\<rparr>"
  | (visit) pre domainNode post neighbors where
      "panicked s = None"
      "workers s = pre @ (domainNode, Visit) # post" "t = Worker (length pre)"
      "BFSPeers env cfg (directDomain (Domain domainNode)) = Inr neighbors"
      "s' = s\<lparr>dialled := dialled s @ [directDomain (Domain domainNode)],
               workers := pre @ (domainNode\<lparr>Neighbors := Some neighbors\<rparr>, Emit neighbors) # post\<rparr>"
  | (emit_closed) pre domainNode post neighbors where
      "panicked s = None"
      "workers s = pre @ (domainNode, Emit neighbors) # post" "t = Worker (length pre)"
      "graphChanClosed s"
      "s' = s\<lparr>panicked := Some SendOnClosedChannel\<rparr>"
  | (emit) pre domainNode post neighbors where
      "panicked s = None"
      "workers s = pre @ (domainNode, Emit neighbors) # post" "t = Worker (length pre)"
      "\<not> graphChanClosed s" "length (domainGraphChan s) < 5"
      "s' = s\<lparr>domainGraphChan := domainGraphChan s @ [domainNode],
               workers := pre @ (domainNode, Ranging neighbors) # post\<rparr>"
  | (release) pre domainNode post where
      "panicked s = None"
      "workers s = pre @ (domainNode, Ranging []) # post" "t = Worker (length pre)"
      "threadPass s < nat (parallel cfg)"
      "s' = s\<lparr>threadPass := threadPass s + 1, workers := pre @ (domainNode, Finish) # post\<rparr>"
  | (add) pre domainNode post neighbor rest where
      "panicked s = None"
      "workers s = pre @ (domainNode, Ranging (neighbor # rest)) # post" "t = Worker (length pre)"
      "s' = s\<lparr>wg := wg s + 1, workers := pre @ (domainNode, Enqueue neighbor rest) # post\<rparr>"
  | (enqueue) pre domainNode post neighbor rest where
      "panicked s = None"
      "workers s = pre @ (domainNode, Enqueue neighbor rest) # post" "t = Worker (length pre)"
      "length (domainChan s) < 5"
      "s' = s\<lparr>domainChan := domainChan s @
                 [\<lparr>Domain = neighbor, Depth = Depth domainNode + 1, Neighbors = None\<rparr>],
               workers := pre @ (domainNode, Ranging rest) # post\<rparr>"
  | (finish) pre domainNode post where
      "panicked s = None"
      "workers s = pre @ (domainNode, Finish) # post" "t = Worker (length pre)"
      "s' = wgDone (s\<lparr>workers := pre @ post\<rparr>)"
  | (save) domainNode queued where
      "panicked s = None"
      "aggAt s = AggLoop" "domainGraphChan s = domainNode # queued"
      "s' = s\<lparr>domainGraphChan := queued,
               domainGraph := AList.update (directDomain (Domain domainNode)) domainNode
                                (domainGraph s)\<rparr>"
  | (observe_close)
      "panicked s = None"
      "aggAt s = AggLoop" "domainGraphChan s = []" "graphChanClosed s"
      "s' = s\<lparr>aggAt := AggSendDone\<rparr>"
  | (wait) "panicked s = None" "mainAt s = MainWait" "wg s = 0" "s' = s\<lparr>mainAt := MainClose\<rparr>"
  | (close_closed) "panicked s = None" "mainAt s = MainClose" "graphChanClosed s"
      "s' = s\<lparr>panicked := Some CloseOfClosedChannel\<rparr>"
  | (close) "panicked s = None" "mainAt s = MainClose" "\<not> graphChanClosed s"
      "s' = s\<lparr>graphChanClosed := True, mainAt := MainRecvDone\<rparr>"
  | (handshake) "panicked s = None" "mainAt s = MainRecvDone" "aggAt s = AggSendDone"
      "s' = s\<lparr>mainAt := MainReturned, aggAt := AggReturned\<rparr>"
proof -
  from assms have np: "panicked s = None"
    by (simp add: fire_def split: if_splits)
  show thesis
  proof (cases t)
    case Dispatcher
    with assms np have "dispatcher_step cfg s = Some s'" by (simp add: fire_def)
    then show thesis
    proof (cases rule: dispatcher_cases)
      case (too_deep domainNode queued)
      show thesis by (rule that(1) [OF np too_deep])
    next
      case (admit domainNode queued)
      show thesis by (rule that(2) [OF np admit])
    next
      case (seen domainNode queued)
      show thesis by (rule that(3) [OF np seen])
    qed
  next
    case (Worker i)
    with assms np have i: "i < length (workers s)" and w: "worker_step cfg env i s = Some s'"
      by (simp_all add: fire_def split: if_splits)
    from i w show thesis
    proof (cases rule: worker_cases)
      case (acquire pre domainNode post)
      from Worker acquire(2) have t: "t = Worker (length pre)" by simp
      show thesis by (rule that(4) [OF np acquire(1) t acquire(3,4)])
    next
      case (visit pre domainNode post neighbors)
      from Worker visit(2) have t: "t = Worker (length pre)" by simp
      show thesis by (rule that(5) [OF np visit(1) t visit(3,4)])
    next
      case (emit_closed pre domainNode post neighbors)
      from Worker emit_closed(2) have t: "t = Worker (length pre)" by simp
      show thesis by (rule that(6) [OF np emit_closed(1) t emit_closed(3,4)])
    next
      case (emit pre domainNode post neighbors)
      from Worker emit(2) have t: "t = Worker (length pre)" by simp
      show thesis by (rule that(7) [OF np emit(1) t emit(3,4,5)])
    next
      case (release pre domainNode post)
      from Worker release(2) have t: "t = Worker (length pre)" by simp
      show thesis by (rule that(8) [OF np release(1) t release(3,4)])
    next
      case (add pre domainNode post neighbor rest)
      from Worker add(2) have t: "t = Worker (length pre)" by simp
      show thesis by (rule that(9) [OF np add(1) t add(3)])
    next
      case (enqueue pre domainNode post neighbor rest)
      from Worker enqueue(2) have t: "t = Worker (length pre)" by simp
      show thesis by (rule that(10) [OF np enqueue(1) t enqueue(3,4)])
    next
      case (finish pre domainNode post)
      from Worker finish(2) have t: "t = Worker (length pre)" by simp
      show thesis by (rule that(11) [OF np finish(1) t finish(3)])
    qed
  next
    case Aggregator
    with assms np have "aggregator_step s = Some s'" by (simp add: fire_def)
    then show thesis
    proof (cases rule: aggregator_cases)
      case (save domainNode queued)
      show thesis by (rule that(12) [OF np save])
    next
      case observe_close
      show thesis by (rule that(13) [OF np observe_close])
    qed
  next
    case Caller
    with assms np have "main_step s = Some s'" by (simp add: fire_def)
    then show thesis
    proof (cases rule: main_cases)
      case wait
      show thesis by (rule that(14) [OF np wait])
    next
      case close_closed
      show thesis by (rule that(15) [OF np close_closed])
    next
      case close
      show thesis by (rule that(16) [OF np close])
    next
      case handshake
      show thesis by (rule that(17) [OF np handshake])
    qed
  qed
qed

section \<open>The invariants hold in every reachable state\<close>

lemma inv_sync_init: "inv_sync cfg (BFS_init cfg root)"
  by (simp add: inv_sync_def BFS_init_def passHolders_def)

lemma inv_sync_step:
  assumes "fire cfg env t s = Some s'" and "inv_sync cfg s"
  shows "inv_sync cfg s'"
  using assms
proof (cases rule: fire_cases)
  case (too_deep domainNode queued)
  with assms(2) show ?thesis 
    by (auto simp: inv_sync_def passHolders_def wgDone_def)
next
  case (admit domainNode queued)
  with assms(2) show ?thesis
    by (auto simp: inv_sync_def passHolders_def)
next
  case (seen domainNode queued)
  with assms(2) show ?thesis
    by (auto simp: inv_sync_def passHolders_def wgDone_def)
next
  case (acquire pre domainNode post)
  with assms(2) show ?thesis
    by (auto simp: inv_sync_def passHolders_def)
next
  case (visit pre domainNode post neighbors)
  with assms(2) show ?thesis
    by (auto simp: inv_sync_def passHolders_def)
next
  case (emit_closed pre domainNode post neighbors)
  with assms(2) show ?thesis
    by (auto simp: inv_sync_def passHolders_def)
next
  case (emit pre domainNode post neighbors)
  with assms(2) show ?thesis
    by (auto simp: inv_sync_def passHolders_def)
next
  case (release pre domainNode post)
  with assms(2) show ?thesis
    by (auto simp: inv_sync_def passHolders_def)
next
  case (add pre domainNode post neighbor rest)
  with assms(2) show ?thesis
    by (auto simp: inv_sync_def passHolders_def)
next
  case (enqueue pre domainNode post neighbor rest)
  with assms(2) show ?thesis
    by (auto simp: inv_sync_def passHolders_def)
next
  case (finish pre domainNode post)
  with assms(2) show ?thesis
    by (auto simp: inv_sync_def passHolders_def wgDone_def)
next
  case (save domainNode queued)
  with assms(2) show ?thesis
    by (auto simp: inv_sync_def passHolders_def)
next
  case observe_close
  with assms(2) show ?thesis
    by (auto simp: inv_sync_def passHolders_def)
next
  case wait
  with assms(2) show ?thesis
    by (auto simp: inv_sync_def passHolders_def)
next
  case close_closed
  with assms(2) show ?thesis
    by (auto simp: inv_sync_def passHolders_def)
next
  case close
  with assms(2) show ?thesis
    by (auto simp: inv_sync_def passHolders_def)
next
  case handshake
  with assms(2) show ?thesis
    by (auto simp: inv_sync_def passHolders_def)
qed

lemma inv_nodes_init: "inv_nodes cfg env (BFS_init cfg root)"
  by (simp add: inv_nodes_def BFS_init_def)

lemma list_all_update:
  "list_all (\<lambda>(k, n). P k n) al \<Longrightarrow> P k x \<Longrightarrow> list_all (\<lambda>(k, n). P k n) (AList.update k x al)"
  by (induction al) auto

lemma inv_nodes_step:
  assumes "fire cfg env t s = Some s'" and "inv_nodes cfg env s"
  shows "inv_nodes cfg env s'"
  using assms
proof (cases rule: fire_cases)
  case (visit pre domainNode post neighbors)
  with assms(2) show ?thesis
    by (auto simp: inv_nodes_def resolved_def canon_def)
next
  case (save domainNode queued)
  have g: "list_all (\<lambda>(k, n). k = canon n \<and> Depth n \<le> maxDepth cfg \<and> resolved cfg env n)
      (domainGraph s)"
    using assms(2) by (simp add: inv_nodes_def)
  have n: "Depth domainNode \<le> maxDepth cfg \<and> resolved cfg env domainNode"
    using assms(2) save by (simp add: inv_nodes_def)
  have "list_all (\<lambda>(k, n). k = canon n \<and> Depth n \<le> maxDepth cfg \<and> resolved cfg env n)
      (AList.update (canon domainNode) domainNode (domainGraph s))"
    using n
    by (intro list_all_update [where P = "\<lambda>k n. k = canon n \<and> Depth n \<le> maxDepth cfg \<and> resolved cfg env n", OF g]) simp
  with save assms(2) show ?thesis
    by (auto simp: inv_nodes_def canon_def)
qed (auto simp: inv_nodes_def wgDone_def)

lemma inv_unique_init: "inv_unique (BFS_init cfg root)"
  by (simp add: inv_unique_def BFS_init_def toDial_def toEmit_def)

lemma inv_unique_step:
  assumes "fire cfg env t s = Some s'" and "inv_unique s"
  shows "inv_unique s'"
  using assms
proof (cases rule: fire_cases)
  case (admit domainNode queued)
  with assms(2) show ?thesis
    by (auto simp: inv_unique_def toDial_def toEmit_def canon_def list_all_iff)
next
  case (visit pre domainNode post neighbors)
  with assms(2) show ?thesis
    by (auto simp: inv_unique_def toDial_def toEmit_def canon_def)
next
  case (emit pre domainNode post neighbors)
  with assms(2) show ?thesis
    by (auto simp: inv_unique_def toDial_def toEmit_def canon_def)
next
  case (save domainNode queued)
  with assms(2) show ?thesis
    by (auto simp: inv_unique_def toDial_def toEmit_def canon_def update_keys)
qed (auto simp: inv_unique_def toDial_def toEmit_def wgDone_def)

lemma reachable_invs:
  assumes "reachable cfg env root s"
  shows "inv_sync cfg s \<and> inv_nodes cfg env s \<and> inv_unique s"
  using assms
proof (induction rule: reachable.induct)
  case start
  show ?case by (simp add: inv_sync_init inv_nodes_init inv_unique_init)
next
  case (step s t s')
  then show ?case
    by (simp add: inv_sync_step inv_nodes_step inv_unique_step)
qed

lemma run_reachable:
  "reachable cfg env root s \<Longrightarrow> run cfg env ts s = Some s' \<Longrightarrow> reachable cfg env root s'"
proof (induction ts arbitrary: s)
  case Nil
  then show ?case by simp
next
  case (Cons t ts)
  then show ?case
    by (auto split: option.splits intro: reachable.step)
qed

lemma inv_within_init:
  "certGraphWithin cfg env root U \<Longrightarrow> inv_within U (BFS_init cfg root)"
  by (simp add: inv_within_def BFS_init_def certGraphWithin_def canon_def)

lemma inv_within_step:
  assumes "fire cfg env t s = Some s'" and "inv_within U s" and "certGraphWithin cfg env root U"
  shows "inv_within U s'"
  using assms(1)
proof (cases rule: fire_cases)
  case (visit pre domainNode post neighbors)
  from assms(2) visit have "canon domainNode \<in> U"
    by (simp add: inv_within_def)
  with assms(3) visit have "list_all (\<lambda>n. directDomain n \<in> U) neighbors"
    by (auto simp: certGraphWithin_def canon_def split: sum.splits)
  with assms(2) visit show ?thesis
    by (auto simp: inv_within_def canon_def)
qed (use assms(2) in \<open>auto simp: inv_within_def wgDone_def canon_def\<close>)

lemma remaining_step:
  assumes "fire cfg env t s = Some s'" and "inv_within U s" and "inv_sync cfg s" and "finite U"
  shows "Suc (remaining U cfg env s') = remaining U cfg env s"
  using assms(1)
proof (cases rule: fire_cases)
  case (admit domainNode queued)
  let ?d = "directDomain (Domain domainNode)"
  from assms(2) admit have d: "?d \<in> U - markedDomains s"
    by (simp add: inv_within_def canon_def)
  have fin: "finite (U - markedDomains s)" using assms(4) by simp
  have eq: "U - insert ?d (markedDomains s) = (U - markedDomains s) - {?d}" by auto
  have "(\<Sum>d \<in> U - markedDomains s. 6 + 3 * fanout cfg env d)
          = (6 + 3 * fanout cfg env ?d) + (\<Sum>d \<in> U - insert ?d (markedDomains s). 6 + 3 * fanout cfg env d)"
    unfolding eq by (rule sum.remove [OF fin d])
  with admit show ?thesis
    by (simp add: remaining_def canon_def)
next
  case (visit pre domainNode post neighbors)
  then show ?thesis
    by (simp add: remaining_def canon_def fanout_def)
qed (use assms(3) in \<open>auto simp: remaining_def inv_sync_def\<close>)

section \<open>Progress\<close>

lemma fire_Worker:
  "panicked s = None \<Longrightarrow> i < length (workers s) \<Longrightarrow>
     fire cfg env (Worker i) s = worker_step cfg env i s"
  by (simp add: fire_def)

lemma wg_zero_iff:
  assumes "inv_sync cfg s"
  shows "wg s = 0 \<longleftrightarrow> domainChan s = [] \<and> workers s = []"
proof -
  have sum0: "\<And>a b c :: nat. int a + int b + int c = 0 \<longleftrightarrow> a = 0 \<and> b = 0 \<and> c = 0"
    by linarith
  from assms have "wg s = int (length (domainChan s)) + int (length (workers s))
      + int (length (filter (\<lambda>w. awaitsEnqueue (snd w)) (workers s)))"
    by (simp add: inv_sync_def)
  then show ?thesis
    by (auto simp only: sum0 length_0_conv filter.simps)
qed

lemma workers_alive_not_closed:
  assumes "inv_sync cfg s" and "workers s \<noteq> []"
  shows "\<not> graphChanClosed s" and "mainAt s = MainWait"
proof -
  from assms have "wg s \<noteq> 0" by (simp add: wg_zero_iff)
  with assms(1) show "mainAt s = MainWait" by (auto simp: inv_sync_def)
  with assms(1) show "\<not> graphChanClosed s" by (simp add: inv_sync_def)
qed

lemma holder_leaves_room:
  assumes "inv_sync cfg s" and "i < length (workers s)" and "holdsPass (snd (workers s ! i))"
  shows "threadPass s < nat (parallel cfg)"
proof -
  from assms(2,3) have "workers s ! i \<in> set (filter (\<lambda>w. holdsPass (snd w)) (workers s))"
    by simp
  then have "0 < passHolders s"
    unfolding passHolders_def by (rule length_pos_if_in_set)
  with assms(1) show ?thesis by (simp add: inv_sync_def)
qed

lemma worker_progress:
  assumes inv: "inv_sync cfg s" and par: "1 \<le> parallel cfg"
    and chan: "domainChan s = []" and gchan: "domainGraphChan s = []"
    and ws: "workers s \<noteq> []"
  shows "\<exists>i s'. i < length (workers s) \<and> worker_step cfg env i s = Some s'"
proof (cases "\<exists>w\<in>set (workers s). snd w \<noteq> AwaitPass")
  case True
  then obtain i where i: "i < length (workers s)" and pc: "snd (workers s ! i) \<noteq> AwaitPass"
    by (auto simp: in_set_conv_nth)
  obtain domainNode pc' where w: "workers s ! i = (domainNode, pc')"
    by (cases "workers s ! i")
  from workers_alive_not_closed [OF inv ws] have open': "\<not> graphChanClosed s" by simp
  have "\<exists>s'. worker_step cfg env i s = Some s'"
  proof (cases pc')
    case AwaitPass
    with pc w show ?thesis by simp
  next
    case Visit
    with w show ?thesis
      by (simp add: worker_step_def Let_def split: sum.splits)
  next
    case (Emit neighbors)
    with w open' gchan show ?thesis
      by (simp add: worker_step_def)
  next
    case (Ranging todo)
    show ?thesis
    proof (cases todo)
      case Nil
      from holder_leaves_room [OF inv i] w Ranging have "threadPass s < nat (parallel cfg)" by simp
      with w Ranging Nil show ?thesis by (simp add: worker_step_def)
    next
      case (Cons neighbor rest)
      with w Ranging show ?thesis by (simp add: worker_step_def)
    qed
  next
    case (Enqueue neighbor rest)
    with w chan show ?thesis
      by (simp add: worker_step_def)
  next
    case Finish
    with w show ?thesis by (simp add: worker_step_def)
  qed
  with i show ?thesis by blast
next
  case False
  then have "filter (\<lambda>w. holdsPass (snd w)) (workers s) = []"
    by (auto simp: filter_empty_conv)
  then have "passHolders s = 0" by (simp add: passHolders_def)
  with inv par have tp: "0 < threadPass s" by (simp add: inv_sync_def)
  from ws have i: "0 < length (workers s)" by simp
  then have "workers s ! 0 \<in> set (workers s)" by simp
  with False have "snd (workers s ! 0) = AwaitPass" by blast
  then obtain domainNode where "workers s ! 0 = (domainNode, AwaitPass)"
    by (cases "workers s ! 0") simp
  with tp have "\<exists>s'. worker_step cfg env 0 s = Some s'"
    by (simp add: worker_step_def)
  with i show ?thesis by blast
qed

lemma progress:
  assumes inv: "inv_sync cfg s" and par: "1 \<le> parallel cfg"
  shows "mainAt s = MainReturned \<or> (\<exists>t s'. fire cfg env t s = Some s')"
proof -
  from inv have np: "panicked s = None" by (simp add: inv_sync_def)
  consider (frontier) "domainChan s \<noteq> []"
    | (tosave) "domainGraphChan s \<noteq> []"
    | (working) "domainChan s = []" "domainGraphChan s = []" "workers s \<noteq> []"
    | (idle) "domainChan s = []" "domainGraphChan s = []" "workers s = []"
    by blast
  then show ?thesis
  proof cases
    case frontier
    then obtain domainNode queued where "domainChan s = domainNode # queued"
      by (cases "domainChan s") auto
    then have "\<exists>s'. dispatcher_step cfg s = Some s'"
      by (simp add: dispatcher_step_def Let_def)
    then obtain s' where "fire cfg env Dispatcher s = Some s'"
      using np by (auto simp: fire_def)
    then show ?thesis by blast
  next
    case tosave
    then obtain domainNode queued where q: "domainGraphChan s = domainNode # queued"
      by (cases "domainGraphChan s") auto
    with inv have "aggAt s = AggLoop" by (auto simp: inv_sync_def)
    with q have "\<exists>s'. aggregator_step s = Some s'"
      by (simp add: aggregator_step_def)
    then obtain s' where "fire cfg env Aggregator s = Some s'"
      using np by (auto simp: fire_def)
    then show ?thesis by blast
  next
    case working
    from worker_progress [OF inv par working]
    obtain i s' where "i < length (workers s)" "worker_step cfg env i s = Some s'" by blast
    then have "fire cfg env (Worker i) s = Some s'"
      using np by (simp add: fire_Worker)
    then show ?thesis by blast
  next
    case idle
    with inv have wg0: "wg s = 0" by (simp add: wg_zero_iff)
    show ?thesis
    proof (cases "mainAt s")
      case MainWait
      with wg0 have "main_step s = Some (s\<lparr>mainAt := MainClose\<rparr>)" by (simp add: main_step_def)
      then have "fire cfg env Caller s = Some (s\<lparr>mainAt := MainClose\<rparr>)"
        using np by (simp add: fire_def)
      then show ?thesis by blast
    next
      case MainClose
      with inv have "\<not> graphChanClosed s" by (simp add: inv_sync_def)
      with MainClose have "\<exists>s'. main_step s = Some s'" by (simp add: main_step_def)
      then obtain s' where "fire cfg env Caller s = Some s'"
        using np by (auto simp: fire_def)
      then show ?thesis by blast
    next
      case MainRecvDone
      with inv have closed: "graphChanClosed s" and notret: "aggAt s \<noteq> AggReturned"
        by (simp_all add: inv_sync_def)
      show ?thesis
      proof (cases "aggAt s")
        case AggLoop
        with closed idle have "\<exists>s'. aggregator_step s = Some s'"
          by (simp add: aggregator_step_def)
        then obtain s' where "fire cfg env Aggregator s = Some s'"
          using np by (auto simp: fire_def)
        then show ?thesis by blast
      next
        case AggSendDone
        with MainRecvDone have "\<exists>s'. main_step s = Some s'" by (simp add: main_step_def)
        then obtain s' where "fire cfg env Caller s = Some s'"
          using np by (auto simp: fire_def)
        then show ?thesis by blast
      next
        case AggReturned
        with notret show ?thesis by simp
      qed
    next
      case MainReturned
      then show ?thesis by simp
    qed
  qed
qed

lemma returned_quiescent:
  assumes "inv_sync cfg s" and "mainAt s = MainReturned"
  shows "wg s = 0 \<and> domainChan s = [] \<and> workers s = [] \<and> domainGraphChan s = []
         \<and> fire cfg env t s = None"
proof -
  from assms have wg0: "wg s = 0" and closed: "graphChanClosed s" and agg: "aggAt s = AggReturned"
    by (simp_all add: inv_sync_def)
  from assms(1) wg0 have e: "domainChan s = []" "workers s = []"
    by (simp_all add: wg_zero_iff)
  from assms(1) agg have g: "domainGraphChan s = []" by (simp add: inv_sync_def)
  have "fire cfg env t s = None"
    using e g agg assms(2)
    by (cases t) (simp_all add: fire_def dispatcher_step_def aggregator_step_def main_step_def)
  with wg0 e g show ?thesis by simp
qed

section \<open>The scenarios, run\<close>

lemma chain_run:
  "run spec_cfg chain_env chain_schedule (BFS_init spec_cfg ''a.test'') = Some chain_final"
  by code_simp

lemma shallow_run:
  "run shallow_cfg chain_env shallow_schedule (BFS_init shallow_cfg ''a.test'') = Some shallow_final"
  by code_simp

lemma mixed_run_busy:
  "run single_cfg mixed_env (take 18 mixed_schedule) (BFS_init single_cfg ''a.test'') = Some mixed_busy"
  by code_simp

lemma mixed_run:
  "run single_cfg mixed_env mixed_schedule (BFS_init single_cfg ''a.test'') = Some mixed_final"
  by code_simp

lemma chain_reachable: "reachable spec_cfg chain_env ''a.test'' chain_final"
  by (rule run_reachable [OF reachable.start chain_run])

lemma shallow_reachable: "reachable shallow_cfg chain_env ''a.test'' shallow_final"
  by (rule run_reachable [OF reachable.start shallow_run])

lemma mixed_busy_reachable: "reachable single_cfg mixed_env ''a.test'' mixed_busy"
  by (rule run_reachable [OF reachable.start mixed_run_busy])

lemma mixed_reachable: "reachable single_cfg mixed_env ''a.test'' mixed_final"
  by (rule run_reachable [OF reachable.start mixed_run])

lemma chain_peers:
  "BFSPeers chain_env spec_cfg ''a.test'' = Inr [''a.test'', ''b.test'']"
  "BFSPeers chain_env spec_cfg ''b.test'' = Inr [''b.test'', ''c.test'']"
  "BFSPeers chain_env spec_cfg ''c.test'' = Inr [''c.test'']"
  by code_simp+

lemma chain_within:
  "certGraphWithin spec_cfg chain_env ''a.test'' {''a.test'', ''b.test'', ''c.test''}"
  unfolding certGraphWithin_def by (simp add: chain_peers directDomain_def)

section \<open>Claims about the traversal\<close>

text \<open>
  Claim C1. With parallelism \<open>P\<close> at least 1, in every reachable state of \<open>BFS\<close> the
  number of workers inside the call of the resolver is at most \<open>P\<close>, however many
  workers and frontier items are pending: a worker is inside the call only while it
  holds a pass, and the passes held and the passes in \<^verbatim>\<open>threadPass\<close> always add up to
  \<open>P\<close>, so that no path of a worker keeps or loses one.
\<close>

theorem permits_bound_resolutions:
  assumes "reachable cfg env root s" and "1 \<le> parallel cfg"
  shows "int (inFlight s) \<le> parallel cfg
         \<and> inFlight s \<le> passHolders s
         \<and> threadPass s + passHolders s = nat (parallel cfg)"
proof -
  from reachable_invs [OF assms(1)] have cons: "threadPass s + passHolders s = nat (parallel cfg)"
    by (simp add: inv_sync_def)
  have "\<And>ws :: (DomainNode \<times> worker_pc) list.
          length (filter (\<lambda>w. snd w = Visit) ws) \<le> length (filter (\<lambda>w. holdsPass (snd w)) ws)"
  proof -
    fix ws :: "(DomainNode \<times> worker_pc) list"
    show "length (filter (\<lambda>w. snd w = Visit) ws) \<le> length (filter (\<lambda>w. holdsPass (snd w)) ws)"
      by (induction ws) auto
  qed
  then have le: "inFlight s \<le> passHolders s"
    by (simp add: inFlight_def passHolders_def)
  with cons assms(2) show ?thesis by linarith
qed

theorem permits_bound_resolutions_witness:
  "int (inFlight mixed_busy) \<le> parallel single_cfg
   \<and> inFlight mixed_busy \<le> passHolders mixed_busy
   \<and> threadPass mixed_busy + passHolders mixed_busy = nat (parallel single_cfg)
   \<and> inFlight mixed_busy = 1
   \<and> length (workers mixed_busy) = 3
   \<and> fire single_cfg mixed_env (Worker 1) mixed_busy = None"
proof -
  have p: "1 \<le> parallel single_cfg" by (simp add: single_cfg_def)
  have one: "inFlight mixed_busy = 1" by (simp add: inFlight_def mixed_busy_def)
  have three: "length (workers mixed_busy) = 3" by (simp add: mixed_busy_def)
  have blocked: "fire single_cfg mixed_env (Worker 1) mixed_busy = None"
    by (simp add: fire_def worker_step_def mixed_busy_def)
  from permits_bound_resolutions [OF mixed_busy_reachable p] one three blocked
  show ?thesis by blast
qed

lemma reachable_within:
  assumes "reachable cfg env root s" and "certGraphWithin cfg env root U"
  shows "inv_within U s"
  using assms(1)
proof (induction rule: reachable.induct)
  case start
  show ?case by (rule inv_within_init [OF assms(2)])
next
  case (step s t s')
  then show ?case by (simp add: inv_within_step [OF _ _ assms(2)])
qed

lemma remaining_fire:
  assumes "reachable cfg env root s" and "certGraphWithin cfg env root U"
    and "fire cfg env t s = Some s'"
  shows "Suc (remaining U cfg env s') = remaining U cfg env s"
proof -
  from assms(2) have "finite U" by (simp add: certGraphWithin_def)
  with remaining_step [OF assms(3) reachable_within [OF assms(1,2)]] reachable_invs [OF assms(1)]
  show ?thesis by simp
qed

lemma remaining_run:
  assumes "certGraphWithin cfg env root U"
  shows "reachable cfg env root s \<Longrightarrow> run cfg env ts s = Some s' \<Longrightarrow>
           length ts + remaining U cfg env s' = remaining U cfg env s"
proof (induction ts arbitrary: s)
  case Nil
  then show ?case by simp
next
  case (Cons t ts)
  from Cons.prems(2) obtain s1 where f: "fire cfg env t s = Some s1"
    and r: "run cfg env ts s1 = Some s'"
    by (auto split: option.splits)
  from Cons.prems(1) f have "reachable cfg env root s1" by (rule reachable.step)
  from Cons.IH [OF this r] remaining_fire [OF Cons.prems(1) assms f]
  show ?case by simp
qed

lemma some_run_returns:
  assumes "certGraphWithin cfg env root U" and "1 \<le> parallel cfg"
  shows "reachable cfg env root s \<Longrightarrow>
           \<exists>ts s'. run cfg env ts s = Some s' \<and> mainAt s' = MainReturned"
proof (induction "remaining U cfg env s" arbitrary: s rule: less_induct)
  case less
  from reachable_invs [OF less.prems] have inv: "inv_sync cfg s" by simp
  show ?case
  proof (cases "mainAt s = MainReturned")
    case True
    then have "run cfg env [] s = Some s \<and> mainAt s = MainReturned" by simp
    then show ?thesis by blast
  next
    case False
    with progress [OF inv assms(2), of env] obtain t s1 where f: "fire cfg env t s = Some s1"
      by blast
    from less.prems f have r1: "reachable cfg env root s1" by (rule reachable.step)
    from remaining_fire [OF less.prems assms(1) f]
    have "remaining U cfg env s1 < remaining U cfg env s" by simp
    from less.hyps [OF this r1] obtain ts s' where
      "run cfg env ts s1 = Some s'" "mainAt s' = MainReturned" by blast
    with f have "run cfg env (t # ts) s = Some s' \<and> mainAt s' = MainReturned" by simp
    then show ?thesis by blast
  qed
qed

lemma no_infinite_run:
  assumes "certGraphWithin cfg env root U"
  shows "wf {(s', s). reachable cfg env root s \<and> (\<exists>t. fire cfg env t s = Some s')}"
proof (rule wf_subset [OF wf_measure [of "remaining U cfg env"]])
  have less: "remaining U cfg env s' < remaining U cfg env s"
    if "reachable cfg env root s" and "fire cfg env t s = Some s'" for s s' t
    using remaining_fire [OF that(1) assms that(2)] by linarith
  show "{(s', s). reachable cfg env root s \<and> (\<exists>t. fire cfg env t s = Some s')}
          \<subseteq> measure (remaining U cfg env)"
    using less by (auto simp: measure_def inv_image_def)
qed

text \<open>
  Claim C2. For a finite certificate graph (cycles and self-references included) and
  parallelism at least 1: no run of \<open>BFS\<close> is infinite; no reachable state short of the
  return is stuck; in every reachable state the counter of \<^verbatim>\<open>wg\<close> is the number of
  frontier items enqueued, plus the workers alive, plus the items counted and about to be
  enqueued, so that it is incremented before every enqueue and decremented once per
  item; \<^verbatim>\<open>wg.Wait()\<close> is passed only at counter zero; every run has exactly as many
  steps as the bound has gone down; and some run returns. Hence every run, continued
  as long as a goroutine can move, ends with \<open>BFS\<close> returned and the counter at zero.
\<close>

theorem BFS_terminates:
  assumes "certGraphWithin cfg env root U" and "1 \<le> parallel cfg"
  shows "wf {(s', s). reachable cfg env root s \<and> (\<exists>t. fire cfg env t s = Some s')}
     \<and> (\<forall>s. reachable cfg env root s \<longrightarrow>
           (mainAt s = MainReturned \<or> (\<exists>t s'. fire cfg env t s = Some s'))
           \<and> wg s = int (length (domainChan s)) + int (length (workers s))
                    + int (length (filter (\<lambda>w. awaitsEnqueue (snd w)) (workers s)))
           \<and> (mainAt s \<noteq> MainWait \<longrightarrow> wg s = 0)
           \<and> panicked s = None)
     \<and> (\<forall>ts s. run cfg env ts (BFS_init cfg root) = Some s \<longrightarrow>
           length ts + remaining U cfg env s = remaining U cfg env (BFS_init cfg root))
     \<and> (\<exists>ts s. run cfg env ts (BFS_init cfg root) = Some s \<and> mainAt s = MainReturned)"
proof (intro conjI allI impI)
  show "wf {(s', s). reachable cfg env root s \<and> (\<exists>t. fire cfg env t s = Some s')}"
    by (rule no_infinite_run [OF assms(1)])
next
  fix s assume r: "reachable cfg env root s"
  from reachable_invs [OF r] have inv: "inv_sync cfg s" by simp
  show "mainAt s = MainReturned \<or> (\<exists>t s'. fire cfg env t s = Some s')"
    by (rule progress [OF inv assms(2)])
  show "wg s = int (length (domainChan s)) + int (length (workers s))
          + int (length (filter (\<lambda>w. awaitsEnqueue (snd w)) (workers s)))"
    using inv by (simp add: inv_sync_def)
  show "panicked s = None" using inv by (simp add: inv_sync_def)
  assume "mainAt s \<noteq> MainWait"
  with inv show "wg s = 0" by (simp add: inv_sync_def)
next
  fix ts s assume "run cfg env ts (BFS_init cfg root) = Some s"
  with remaining_run [OF assms(1) reachable.start]
  show "length ts + remaining U cfg env s = remaining U cfg env (BFS_init cfg root)" by blast
next
  show "\<exists>ts s. run cfg env ts (BFS_init cfg root) = Some s \<and> mainAt s = MainReturned"
    by (rule some_run_returns [OF assms reachable.start])
qed

theorem BFS_terminates_witness:
  "wf {(s', s). reachable spec_cfg chain_env ''a.test'' s
                 \<and> (\<exists>t. fire spec_cfg chain_env t s = Some s')}
   \<and> mainAt chain_final = MainReturned
   \<and> wg chain_final = 0
   \<and> length chain_schedule
        + remaining {''a.test'', ''b.test'', ''c.test''} spec_cfg chain_env chain_final
      = remaining {''a.test'', ''b.test'', ''c.test''} spec_cfg chain_env
          (BFS_init spec_cfg ''a.test'')"
proof -
  have p: "1 \<le> parallel spec_cfg" by (simp add: spec_cfg_def)
  note T = BFS_terminates [OF chain_within p]
  from T have w: "wf {(s', s). reachable spec_cfg chain_env ''a.test'' s
                 \<and> (\<exists>t. fire spec_cfg chain_env t s = Some s')}" by blast
  have m: "mainAt chain_final = MainReturned" by (simp add: chain_final_def)
  from T have "\<forall>s. reachable spec_cfg chain_env ''a.test'' s \<longrightarrow> mainAt s \<noteq> MainWait \<longrightarrow> wg s = 0"
    by blast
  with chain_reachable m have z: "wg chain_final = 0" by simp
  from T chain_run have "length chain_schedule
        + remaining {''a.test'', ''b.test'', ''c.test''} spec_cfg chain_env chain_final
      = remaining {''a.test'', ''b.test'', ''c.test''} spec_cfg chain_env
          (BFS_init spec_cfg ''a.test'')" by blast
  with w m z show ?thesis by blast
qed


lemma printLines_total:
  assumes "\<And>d. d \<in> set ds \<Longrightarrow> \<exists>n ns. map_of g d = Some n \<and> Neighbors n = Some ns"
  shows "\<exists>ls. printLines g ds = Inr ls"
  using assms
proof (induction ds)
  case Nil
  show ?case by simp
next
  case (Cons d ds)
  from Cons.prems [of d] obtain n ns where n: "map_of g d = Some n" "Neighbors n = Some ns"
    by auto
  from Cons.IH Cons.prems obtain ls where "printLines g ds = Inr ls" by auto
  with n show ?case by simp
qed

lemma printGraph_total:
  assumes "list_all (\<lambda>(k, n). Neighbors n \<noteq> None) g"
  shows "\<exists>ls. printGraph g = Inr ls"
  unfolding printGraph_def
proof (rule printLines_total)
  fix d assume "d \<in> set (sort (map fst g))"
  then have "d \<in> fst ` set g" by simp
  then obtain n where "map_of g d = Some n"
    by (auto dest: weak_map_of_SomeI)
  moreover from this have "(d, n) \<in> set g" by (rule map_of_SomeD)
  with assms have "Neighbors n \<noteq> None" by (auto simp: list_all_iff)
  ultimately show "\<exists>n ns. map_of g d = Some n \<and> Neighbors n = Some ns" by auto
qed

text \<open>
  Claim C9. In every reachable state, every node in \<^verbatim>\<open>domainGraphChan\<close>, every node in
  \<^verbatim>\<open>domainGraph\<close> and every node held by a worker that has passed line 168 has its
  \<^verbatim>\<open>Neighbors\<close> set, and \<open>printGraph\<close> on the graph prints its lines without
  dereferencing nil.
\<close>

theorem neighbors_set_before_send:
  assumes "reachable cfg env root s"
  shows "list_all (\<lambda>w. notDialled (snd w) \<or> Neighbors (fst w) \<noteq> None) (workers s)
         \<and> list_all (\<lambda>n. Neighbors n \<noteq> None) (domainGraphChan s)
         \<and> list_all (\<lambda>(k, n). Neighbors n \<noteq> None) (domainGraph s)
         \<and> (\<exists>ls. printGraph (domainGraph s) = Inr ls)"
proof -
  from reachable_invs [OF assms] have inv: "inv_nodes cfg env s" by simp
  have set': "Neighbors n \<noteq> None" if "resolved cfg env n" for n
    using that by (auto simp: resolved_def split: option.splits)
  have w: "notDialled (snd w) \<or> Neighbors (fst w) \<noteq> None" if "workerOk cfg env w" for w
  proof (cases w)
    case (Pair n pc)
    with that show ?thesis by (cases pc) (auto dest: set')
  qed
  from inv have 1: "list_all (\<lambda>w. notDialled (snd w) \<or> Neighbors (fst w) \<noteq> None) (workers s)"
    unfolding inv_nodes_def list_all_iff using w by blast
  from inv have 2: "list_all (\<lambda>n. Neighbors n \<noteq> None) (domainGraphChan s)"
    unfolding inv_nodes_def list_all_iff using set' by blast
  from inv have 3: "list_all (\<lambda>(k, n). Neighbors n \<noteq> None) (domainGraph s)"
    unfolding inv_nodes_def list_all_iff using set' by blast
  from 1 2 3 printGraph_total [OF 3] show ?thesis by blast
qed

theorem neighbors_set_before_send_witness:
  "list_all (\<lambda>n. Neighbors n \<noteq> None) (domainGraphChan mixed_busy)
   \<and> length (domainGraphChan mixed_busy) = 1
   \<and> list_all (\<lambda>(k, n). Neighbors n \<noteq> None) (domainGraph chain_final)
   \<and> printGraph (domainGraph chain_final) =
       Inr [(''a.test'', 0, [''a.test'', ''b.test'']),
            (''b.test'', 1, [''b.test'', ''c.test'']),
            (''c.test'', 2, [''c.test''])]"
proof -
  have l: "length (domainGraphChan mixed_busy) = 1" by (simp add: mixed_busy_def)
  have p: "printGraph (domainGraph chain_final) =
       Inr [(''a.test'', 0, [''a.test'', ''b.test'']),
            (''b.test'', 1, [''b.test'', ''c.test'']),
            (''c.test'', 2, [''c.test''])]"
    by code_simp
  from neighbors_set_before_send [OF mixed_busy_reachable]
    neighbors_set_before_send [OF chain_reachable] l p
  show ?thesis by blast
qed

lemma inv_dialled_init: "inv_dialled (BFS_init cfg root)"
  by (simp add: inv_dialled_def BFS_init_def)

lemma inv_dialled_step:
  assumes "fire cfg env t s = Some s'" and "inv_dialled s"
  shows "inv_dialled s'"
  using assms
proof (cases rule: fire_cases)
  case (visit pre domainNode post neighbors)
  with assms(2) show ?thesis
    by (auto simp: inv_dialled_def canon_def list_all_iff)
next
  case (save domainNode queued)
  have g: "list_all (\<lambda>(k, n). k \<in> set (dialled s)) (domainGraph s)"
    using assms(2) by (simp add: inv_dialled_def)
  have n: "canon domainNode \<in> set (dialled s)"
    using assms(2) save by (simp add: inv_dialled_def)
  have "list_all (\<lambda>(k, n). k \<in> set (dialled s))
      (AList.update (canon domainNode) domainNode (domainGraph s))"
    using n
    by (intro list_all_update [where P = "\<lambda>k n. k \<in> set (dialled s)", OF g]) simp
  with save assms(2) show ?thesis
    by (auto simp: inv_dialled_def canon_def)
qed (auto simp: inv_dialled_def wgDone_def)

lemma reachable_dialled:
  assumes "reachable cfg env root s"
  shows "inv_dialled s"
  using assms
proof (induction rule: reachable.induct)
  case start
  show ?case by (rule inv_dialled_init)
next
  case (step s t s')
  then show ?case by (simp add: inv_dialled_step)
qed

lemma shallow_run_frontier:
  "run shallow_cfg chain_env (take 10 shallow_schedule) (BFS_init shallow_cfg ''a.test'')
     = Some shallow_frontier"
  by code_simp

lemma shallow_frontier_reachable: "reachable shallow_cfg chain_env ''a.test'' shallow_frontier"
  by (rule run_reachable [OF reachable.start shallow_run_frontier])

section \<open>Hostnames stay lowercase, marked domains stay in the pipeline\<close>

lemma BFSPeers_lowercase:
  assumes "idempotentLower (ToLower env)" and "BFSPeers env cfg host = Inr ns"
  shows "list_all (lowercase (ToLower env)) ns"
proof -
  obtain certs where g: "getPeerCerts env cfg host = Inr certs"
    using getPeerCerts_eq by blast
  have fin: "finite (observedNames (ToLower env) certs)"
    by (simp add: observedNames_def split: list.splits)
  from BFSPeers_names [OF g] assms(2) have "set ns = observedNames (ToLower env) certs"
    using fin by simp
  moreover have "lowercase (ToLower env) d" if "d \<in> observedNames (ToLower env) certs" for d
    using that assms(1)
    by (auto simp: observedNames_def lowercase_def idempotentLower_def
             split: list.splits if_splits)
  ultimately show ?thesis by (simp add: list_all_iff)
qed

lemma inv_lower_init:
  "idempotentLower lower \<Longrightarrow> inv_lower lower (BFS_init cfg (lower h))"
  by (simp add: inv_lower_def BFS_init_def lowercase_def idempotentLower_def)

lemma inv_lower_step:
  assumes "fire cfg env t s = Some s'" and "inv_lower (ToLower env) s"
    and "idempotentLower (ToLower env)"
  shows "inv_lower (ToLower env) s'"
  using assms(1)
proof (cases rule: fire_cases)
  case (visit pre domainNode post neighbors)
  from BFSPeers_lowercase [OF assms(3) visit(4)]
  have "list_all (lowercase (ToLower env)) neighbors" .
  with visit assms(2) show ?thesis
    by (auto simp: inv_lower_def)
next
  case (save domainNode queued)
  have g: "list_all (\<lambda>(k, n). lowercase (ToLower env) (Domain n)) (domainGraph s)"
    using assms(2) by (simp add: inv_lower_def)
  have n: "lowercase (ToLower env) (Domain domainNode)"
    using assms(2) save by (simp add: inv_lower_def)
  have "list_all (\<lambda>(k, n). lowercase (ToLower env) (Domain n))
      (AList.update (canon domainNode) domainNode (domainGraph s))"
    using n
    by (intro list_all_update [where P = "\<lambda>k n. lowercase (ToLower env) (Domain n)", OF g]) simp
  with save assms(2) show ?thesis
    by (auto simp: inv_lower_def canon_def)
qed (use assms(2) in \<open>auto simp: inv_lower_def wgDone_def\<close>)

text \<open>From a lowercased seed, as \<open>main\<close> passes it, every hostname in the traversal is
  lowercase.\<close>

lemma frontier_lowercase:
  assumes "reachable cfg env (ToLower env h) s" and "idempotentLower (ToLower env)"
  shows "inv_lower (ToLower env) s"
  using assms(1)
proof (induction rule: reachable.induct)
  case start
  show ?case by (rule inv_lower_init [OF assms(2)])
next
  case (step s t s')
  then show ?case by (simp add: inv_lower_step [OF _ _ assms(2)])
qed

lemma inv_marked_init: "inv_marked (BFS_init cfg root)"
  by (simp add: inv_marked_def BFS_init_def)

lemma inv_marked_step:
  assumes "fire cfg env t s = Some s'" and "inv_marked s"
  shows "inv_marked s'"
  using assms
proof (cases rule: fire_cases)
  case (admit domainNode queued)
  with assms(2) show ?thesis
    by (auto simp: inv_marked_def toEmit_def canon_def)
next
  case (visit pre domainNode post neighbors)
  with assms(2) show ?thesis
    by (auto simp: inv_marked_def toEmit_def canon_def)
next
  case (emit pre domainNode post neighbors)
  with assms(2) show ?thesis
    by (auto simp: inv_marked_def toEmit_def canon_def)
next
  case (save domainNode queued)
  with assms(2) show ?thesis
    by (auto simp: inv_marked_def toEmit_def canon_def update_keys)
qed (auto simp: inv_marked_def toEmit_def wgDone_def)

lemma reachable_marked:
  assumes "reachable cfg env root s"
  shows "inv_marked s"
  using assms
proof (induction rule: reachable.induct)
  case start
  show ?case by (rule inv_marked_init)
next
  case (step s t s')
  then show ?case by (simp add: inv_marked_step)
qed

lemma returned_graph_is_marked:
  assumes "reachable cfg env root s" and "mainAt s = MainReturned"
  shows "set (map fst (domainGraph s)) = markedDomains s"
proof -
  from reachable_invs [OF assms(1)] have sy: "inv_sync cfg s" and un: "inv_unique s"
    by simp_all
  from returned_quiescent [OF sy assms(2), of env Dispatcher]
  have e: "workers s = []" "domainGraphChan s = []" by simp_all
  from reachable_marked [OF assms(1)] e have "markedDomains s \<subseteq> set (map fst (domainGraph s))"
    by (simp add: inv_marked_def toEmit_def)
  moreover from un have "set (map fst (domainGraph s)) \<subseteq> markedDomains s"
    by (simp add: inv_unique_def)
  ultimately show ?thesis by blast
qed

lemma star_run:
  "run star_cfg star_env star_schedule (BFS_init star_cfg (ToLower star_env (hostFlag star_cfg)))
     = Some star_final"
  by code_simp

lemma star_reachable:
  "reachable star_cfg star_env (ToLower star_env (hostFlag star_cfg)) star_final"
  by (rule run_reachable [OF reachable.start star_run])

section \<open>Claims about depth and canonical domains\<close>

text \<open>
  Claim C3, as stated, fails for the nodes at depth exactly \<open>D\<close>: with \<^verbatim>\<open>-depth 0\<close> the
  seed \<open>a.test\<close>, at depth 0, is dialled and saved with the two names of its
  certificate.
\<close>

theorem node_at_max_depth_is_expanded:
  "reachable shallow_cfg chain_env ''a.test'' shallow_final
   \<and> mainAt shallow_final = MainReturned
   \<and> maxDepth shallow_cfg = 0
   \<and> map_of (domainGraph shallow_final) ''a.test''
       = Some \<lparr>Domain = ''a.test'', Depth = 0, Neighbors = Some [''a.test'', ''b.test'']\<rparr>
   \<and> dialled shallow_final = [''a.test'']
   \<and> map_of (domainGraph shallow_final) ''b.test'' = None"
  using shallow_reachable by (simp add: shallow_final_def shallow_cfg_def)

text \<open>
  Claim C3, amended. With max depth \<open>D\<close>, in every reachable state: every node held
  by a worker, sent to the saving goroutine or saved has depth at most \<open>D\<close>, so that no
  node of depth above \<open>D\<close> is expanded or recorded; a frontier item of depth above \<open>D\<close>
  at the head of \<^verbatim>\<open>domainChan\<close> is dropped by the dispatcher, which only counts it
  done; a frontier item of depth at most \<open>D\<close>, depth exactly \<open>D\<close> included, whose
  canonical domain is not marked is admitted: the dispatcher marks the domain and starts
  a worker for the node; that worker, once it holds a pass, dials the canonical domain
  and sets the neighbour list to what \<open>BFSPeers\<close> returns; every saved node has been
  dialled and carries that list; and when \<open>BFS\<close> has returned, every marked domain is
  saved.
\<close>

theorem depth_bound:
  assumes "reachable cfg env root s"
  shows "list_all (\<lambda>w. Depth (fst w) \<le> maxDepth cfg) (workers s)
         \<and> list_all (\<lambda>n. Depth n \<le> maxDepth cfg) (domainGraphChan s)
         \<and> list_all (\<lambda>(k, n). Depth n \<le> maxDepth cfg \<and> resolved cfg env n \<and> k \<in> set (dialled s))
             (domainGraph s)
         \<and> (\<forall>n queued. domainChan s = n # queued \<and> maxDepth cfg < Depth n \<longrightarrow>
               fire cfg env Dispatcher s = Some (s\<lparr>domainChan := queued, wg := wg s - 1\<rparr>))
         \<and> (\<forall>n queued. domainChan s = n # queued \<and> Depth n \<le> maxDepth cfg
                \<and> canon n \<notin> markedDomains s \<longrightarrow>
               fire cfg env Dispatcher s
                 = Some ((noteDepth n (s\<lparr>domainChan := queued\<rparr>))
                          \<lparr>markedDomains := insert (canon n) (markedDomains s),
                           workers := workers s @ [(n, AwaitPass)]\<rparr>))
         \<and> (\<forall>pre n post. workers s = pre @ (n, Visit) # post \<longrightarrow>
               (\<exists>ns. BFSPeers env cfg (canon n) = Inr ns
                  \<and> fire cfg env (Worker (length pre)) s
                      = Some (s\<lparr>dialled := dialled s @ [canon n],
                                 workers := pre @ (n\<lparr>Neighbors := Some ns\<rparr>, Emit ns) # post\<rparr>)))
         \<and> (mainAt s = MainReturned \<longrightarrow> set (map fst (domainGraph s)) = markedDomains s)"
proof -
  from reachable_invs [OF assms] have sy: "inv_sync cfg s" and no: "inv_nodes cfg env s"
    by simp_all
  from reachable_dialled [OF assms] have di: "inv_dialled s" .
  from sy have np: "panicked s = None" by (simp add: inv_sync_def)
  have w: "Depth (fst w) \<le> maxDepth cfg" if "workerOk cfg env w" for w
  proof (cases w)
    case (Pair n pc)
    with that show ?thesis by (cases pc) auto
  qed
  from no have 1: "list_all (\<lambda>w. Depth (fst w) \<le> maxDepth cfg) (workers s)"
    unfolding inv_nodes_def list_all_iff using w by blast
  from no have 2: "list_all (\<lambda>n. Depth n \<le> maxDepth cfg) (domainGraphChan s)"
    unfolding inv_nodes_def list_all_iff by blast
  from no di have 3: "list_all (\<lambda>(k, n). Depth n \<le> maxDepth cfg \<and> resolved cfg env n
      \<and> k \<in> set (dialled s)) (domainGraph s)"
    unfolding inv_nodes_def inv_dialled_def list_all_iff by blast
  have 4: "fire cfg env Dispatcher s = Some (s\<lparr>domainChan := queued, wg := wg s - 1\<rparr>)"
    if "domainChan s = n # queued" and "maxDepth cfg < Depth n" for n queued
  proof -
    from sy that(1) have "1 \<le> wg s"
      by (simp add: inv_sync_def)
    with that np show ?thesis
      by (simp add: fire_def dispatcher_step_def wgDone_def)
  qed
  have 5: "fire cfg env Dispatcher s
             = Some ((noteDepth n (s\<lparr>domainChan := queued\<rparr>))
                      \<lparr>markedDomains := insert (canon n) (markedDomains s),
                       workers := workers s @ [(n, AwaitPass)]\<rparr>)"
    if "domainChan s = n # queued" and "Depth n \<le> maxDepth cfg"
      and "canon n \<notin> markedDomains s" for n queued
    using that np by (simp add: fire_def dispatcher_step_def canon_def Let_def)
  have 6: "\<exists>ns. BFSPeers env cfg (canon n) = Inr ns
             \<and> fire cfg env (Worker (length pre)) s
                 = Some (s\<lparr>dialled := dialled s @ [canon n],
                            workers := pre @ (n\<lparr>Neighbors := Some ns\<rparr>, Emit ns) # post\<rparr>)"
    if "workers s = pre @ (n, Visit) # post" for pre n post
  proof -
    obtain ns where ns: "BFSPeers env cfg (canon n) = Inr ns"
      using BFSPeers_total by blast
    from that have "fire cfg env (Worker (length pre)) s
        = Some (s\<lparr>dialled := dialled s @ [canon n],
                   workers := pre @ (n\<lparr>Neighbors := Some ns\<rparr>, Emit ns) # post\<rparr>)"
      using np ns by (simp add: fire_def worker_step_def canon_def Let_def)
    with ns show ?thesis by blast
  qed
  have 7: "mainAt s = MainReturned \<longrightarrow> set (map fst (domainGraph s)) = markedDomains s"
    using returned_graph_is_marked [OF assms] by blast
  from 1 2 3 4 5 6 7 show ?thesis by blast
qed

theorem depth_bound_witness:
  "Depth \<lparr>Domain = ''a.test'', Depth = 0, Neighbors = None\<rparr> = maxDepth shallow_cfg
   \<and> fire shallow_cfg chain_env Dispatcher (BFS_init shallow_cfg ''a.test'')
       = Some ((noteDepth \<lparr>Domain = ''a.test'', Depth = 0, Neighbors = None\<rparr>
                  ((BFS_init shallow_cfg ''a.test'')\<lparr>domainChan := []\<rparr>))
                \<lparr>markedDomains :=
                   insert (canon \<lparr>Domain = ''a.test'', Depth = 0, Neighbors = None\<rparr>)
                     (markedDomains (BFS_init shallow_cfg ''a.test'')),
                 workers := workers (BFS_init shallow_cfg ''a.test'')
                   @ [(\<lparr>Domain = ''a.test'', Depth = 0, Neighbors = None\<rparr>, AwaitPass)]\<rparr>)
   \<and> domainChan shallow_frontier = [\<lparr>Domain = ''b.test'', Depth = 1, Neighbors = None\<rparr>]
   \<and> fire shallow_cfg chain_env Dispatcher shallow_frontier
       = Some (shallow_frontier\<lparr>domainChan := [], wg := wg shallow_frontier - 1\<rparr>)
   \<and> list_all (\<lambda>(k, n). Depth n \<le> maxDepth shallow_cfg \<and> resolved shallow_cfg chain_env n
       \<and> k \<in> set (dialled shallow_final)) (domainGraph shallow_final)
   \<and> set (map fst (domainGraph shallow_final)) = markedDomains shallow_final"
proof -
  let ?root = "\<lparr>Domain = ''a.test'', Depth = 0, Neighbors = None\<rparr>"
  have r0: "reachable shallow_cfg chain_env ''a.test'' (BFS_init shallow_cfg ''a.test'')"
    by (rule reachable.start)
  have i: "domainChan (BFS_init shallow_cfg ''a.test'') = [?root]"
    "Depth ?root \<le> maxDepth shallow_cfg"
    "canon ?root \<notin> markedDomains (BFS_init shallow_cfg ''a.test'')"
    "Depth ?root = maxDepth shallow_cfg"
    by (simp_all add: BFS_init_def shallow_cfg_def)
  from depth_bound [OF r0] i(1,2,3)
  have a: "fire shallow_cfg chain_env Dispatcher (BFS_init shallow_cfg ''a.test'')
       = Some ((noteDepth ?root ((BFS_init shallow_cfg ''a.test'')\<lparr>domainChan := []\<rparr>))
                \<lparr>markedDomains := insert (canon ?root)
                     (markedDomains (BFS_init shallow_cfg ''a.test'')),
                 workers := workers (BFS_init shallow_cfg ''a.test'') @ [(?root, AwaitPass)]\<rparr>)"
    by blast
  have c: "domainChan shallow_frontier = [\<lparr>Domain = ''b.test'', Depth = 1, Neighbors = None\<rparr>]"
    by (simp add: shallow_frontier_def)
  have d: "maxDepth shallow_cfg < Depth \<lparr>Domain = ''b.test'', Depth = 1, Neighbors = None\<rparr>"
    by (simp add: shallow_cfg_def)
  from depth_bound [OF shallow_frontier_reachable] c d
  have b: "fire shallow_cfg chain_env Dispatcher shallow_frontier
       = Some (shallow_frontier\<lparr>domainChan := [], wg := wg shallow_frontier - 1\<rparr>)"
    by blast
  have m: "mainAt shallow_final = MainReturned" by (simp add: shallow_final_def)
  from depth_bound [OF shallow_reachable] m
  have e: "list_all (\<lambda>(k, n). Depth n \<le> maxDepth shallow_cfg \<and> resolved shallow_cfg chain_env n
       \<and> k \<in> set (dialled shallow_final)) (domainGraph shallow_final)"
    "set (map fst (domainGraph shallow_final)) = markedDomains shallow_final"
    by blast+
  from i(4) a c b e show ?thesis by blast
qed

text \<open>
  Claim C4, as stated, fails for the canonical domain of the spec (the lowercase hostname
  with a leading \<open>*.\<close> removed): with \<^verbatim>\<open>-host ""\<close> and a certificate that names
  \<open>*.\<close>, \<open>main\<close> ends with two nodes, for the hostnames \<open>""\<close> and \<open>*.\<close>, which
  have the same canonical domain, the empty one.
\<close>

theorem two_nodes_for_one_canonical_domain:
  "reachable star_cfg star_env (ToLower star_env (hostFlag star_cfg)) star_final
   \<and> mainAt star_final = MainReturned
   \<and> main star_cfg star_env
        \<lparr>fatal = None, bfs = Some star_final,
         printed = [([], 0, [''*.'']), (''*.'', 1, [])], crash = None\<rparr>
   \<and> map (\<lambda>(k, n). Domain n) (domainGraph star_final) = [[], ''*.'']
   \<and> canonical_spec (ToLower star_env) [] = []
   \<and> canonical_spec (ToLower star_env) ''*.'' = []"
proof -
  have m: "mainAt star_final = MainReturned" by (simp add: star_final_def)
  have p: "\<not> parallel star_cfg < 1" by (simp add: star_cfg_def)
  have g: "printGraph (domainGraph star_final) = Inr [([], 0, [''*.'']), (''*.'', 1, [])]"
    by code_simp
  have o: "main star_cfg star_env
        \<lparr>fatal = None, bfs = Some star_final,
         printed = [([], 0, [''*.'']), (''*.'', 1, [])], crash = None\<rparr>"
    by (rule main.traversed [OF p star_reachable m g])
  have d: "map (\<lambda>(k, n). Domain n) (domainGraph star_final) = [[], ''*.'']"
    by (simp add: star_final_def)
  have c: "canonical_spec (ToLower star_env) [] = []"
    "canonical_spec (ToLower star_env) ''*.'' = []"
    by code_simp+
  from star_reachable m o d c show ?thesis by blast
qed

text \<open>
  Claim C4, amended. In every state reachable from a lowercased seed, as \<open>main\<close>
  passes it, and for a lowercasing function that leaves lowercased strings alone: the
  canonical domains, as \<open>directDomain\<close> computes them, of the nodes not yet sent to the
  saving goroutine, of the nodes in \<^verbatim>\<open>domainGraphChan\<close> and of the entries of
  \<^verbatim>\<open>domainGraph\<close> are pairwise different, so that a domain has at most one node and no
  entry of the graph is ever overwritten; every entry is stored under the canonical
  domain of its node, and the canonical domain of every worker was marked by the
  dispatcher before the worker was started. For every saved node whose hostname is not
  the two bytes \<open>*.\<close>, that key is the canonical domain of the spec; hence the saved
  nodes with a hostname other than \<open>*.\<close> have pairwise different canonical domains in
  the sense of the spec. \<open>*.example.com\<close> and \<open>example.com\<close> have the same canonical
  domain.
\<close>

theorem one_node_per_canonical_domain:
  assumes "reachable cfg env (ToLower env h) s" and "idempotentLower (ToLower env)"
  shows "distinct (toEmit s @ map canon (domainGraphChan s) @ map fst (domainGraph s))
         \<and> list_all (\<lambda>(k, n). k = canon n) (domainGraph s)
         \<and> list_all (\<lambda>w. canon (fst w) \<in> markedDomains s) (workers s)
         \<and> set (map fst (domainGraph s)) \<subseteq> markedDomains s
         \<and> list_all (\<lambda>(k, n). Domain n \<noteq> ''*.'' \<longrightarrow> k = canonical_spec (ToLower env) (Domain n))
             (domainGraph s)
         \<and> distinct (map (\<lambda>(k, n). canonical_spec (ToLower env) (Domain n))
                       (filter (\<lambda>(k, n). Domain n \<noteq> ''*.'') (domainGraph s)))
         \<and> directDomain ''*.example.com'' = ''example.com''
         \<and> directDomain ''example.com'' = ''example.com''"
proof -
  from reachable_invs [OF assms(1)] have n: "inv_nodes cfg env s" and u: "inv_unique s"
    by simp_all
  from frontier_lowercase [OF assms] have lo: "inv_lower (ToLower env) s" .
  from n have k: "list_all (\<lambda>(k, n). k = canon n) (domainGraph s)"
    unfolding inv_nodes_def list_all_iff by blast
  have sp: "canon n = canonical_spec (ToLower env) (Domain n)"
    if "lowercase (ToLower env) (Domain n)" and "Domain n \<noteq> ''*.''" for n :: DomainNode
  proof -
    have short: "Domain n = ''*.''" if "length (Domain n) < 3" and "take 2 (Domain n) = ''*.''"
    proof -
      from that(2) have "length (take 2 (Domain n)) = 2" by simp
      with that(1) have "length (Domain n) = 2" by simp
      with that(2) show ?thesis by simp
    qed
    from that short show ?thesis
      by (auto simp: canon_def directDomain_def canonical_spec_def lowercase_def Let_def)
  qed
  from k lo sp have c: "list_all (\<lambda>(k, n). Domain n \<noteq> ''*.'' \<longrightarrow>
      k = canonical_spec (ToLower env) (Domain n)) (domainGraph s)"
    unfolding inv_lower_def list_all_iff by fastforce
  from u have dk: "distinct (map fst (domainGraph s))" by (simp add: inv_unique_def)
  have eq: "map (\<lambda>(k, n). canonical_spec (ToLower env) (Domain n))
          (filter (\<lambda>(k, n). Domain n \<noteq> ''*.'') (domainGraph s))
        = map fst (filter (\<lambda>(k, n). Domain n \<noteq> ''*.'') (domainGraph s))"
    using c by (intro map_cong refl) (auto simp: list_all_iff)
  have d: "distinct (map (\<lambda>(k, n). canonical_spec (ToLower env) (Domain n))
                       (filter (\<lambda>(k, n). Domain n \<noteq> ''*.'') (domainGraph s)))"
    unfolding eq using dk by (rule distinct_map_filter)
  from u k c d show ?thesis
    by (simp add: inv_unique_def directDomain_def)
qed

theorem one_node_per_canonical_domain_witness:
  "distinct (toEmit mixed_final @ map canon (domainGraphChan mixed_final)
       @ map fst (domainGraph mixed_final))
   \<and> map fst (domainGraph mixed_final) = [''a.test'', ''c.test'', ''b.test'']
   \<and> map (\<lambda>(k, n). Domain n) (domainGraph mixed_final) = [''a.test'', ''c.test'', ''*.b.test'']
   \<and> distinct (map (\<lambda>(k, n). canonical_spec (ToLower mixed_env) (Domain n))
                 (filter (\<lambda>(k, n). Domain n \<noteq> ''*.'') (domainGraph mixed_final)))
   \<and> map_option Neighbors (map_of (domainGraph mixed_final) ''a.test'')
       = Some (Some [''*.b.test'', ''a.test'', ''b.test'', ''c.test''])"
proof -
  have k: "map fst (domainGraph mixed_final) = [''a.test'', ''c.test'', ''b.test'']"
    "map (\<lambda>(k, n). Domain n) (domainGraph mixed_final) = [''a.test'', ''c.test'', ''*.b.test'']"
    by (simp_all add: mixed_final_def)
  have a: "map_option Neighbors (map_of (domainGraph mixed_final) ''a.test'')
       = Some (Some [''*.b.test'', ''a.test'', ''b.test'', ''c.test''])"
    by (simp add: mixed_final_def)
  have i: "idempotentLower (ToLower mixed_env)"
    by (simp add: mixed_env_def idempotentLower_asciiLower)
  have l: "ToLower mixed_env ''a.test'' = ''a.test''"
    unfolding mixed_env_def by code_simp
  from mixed_reachable l have r: "reachable single_cfg mixed_env (ToLower mixed_env ''a.test'') mixed_final"
    by simp
  from one_node_per_canonical_domain [OF r i] k a show ?thesis by blast
qed



text \<open>
  Claim C8. With a parallelism below 1, the only run of \<open>main\<close> prints the line of line
  110 on standard error and returns: \<open>BFS\<close> is not called, nothing is printed by
  \<open>printGraph\<close>, and there is no call of \<^verbatim>\<open>tls.DialWithDialer\<close>.
\<close>

theorem invalid_parallel_is_fatal:
  assumes "parallel cfg < 1"
  shows "(main cfg env out \<longleftrightarrow>
            out = \<lparr>fatal = Some ''Must enter a positive number of parallel threads'',
                   bfs = None, printed = [], crash = None\<rparr>)
         \<and> (main cfg env out \<longrightarrow> bfs out = None \<and> networkOperations out = [])"
proof -
  have a: "main cfg env out \<longleftrightarrow>
            out = \<lparr>fatal = Some ''Must enter a positive number of parallel threads'',
                   bfs = None, printed = [], crash = None\<rparr>"
  proof
    assume "main cfg env out"
    then show "out = \<lparr>fatal = Some ''Must enter a positive number of parallel threads'',
                   bfs = None, printed = [], crash = None\<rparr>"
      using assms by (cases rule: main.cases) simp_all
  next
    assume "out = \<lparr>fatal = Some ''Must enter a positive number of parallel threads'',
                   bfs = None, printed = [], crash = None\<rparr>"
    with assms show "main cfg env out" by (simp add: main.invalid_parallel)
  qed
  then show ?thesis by (auto simp: networkOperations_def)
qed

theorem invalid_parallel_is_fatal_witness:
  "parallel zero_cfg < 1
   \<and> main zero_cfg chain_env
        \<lparr>fatal = Some ''Must enter a positive number of parallel threads'',
         bfs = None, printed = [], crash = None\<rparr>
   \<and> networkOperations
        \<lparr>fatal = Some ''Must enter a positive number of parallel threads'',
         bfs = None, printed = [], crash = None\<rparr> = []"
proof -
  have p: "parallel zero_cfg < 1" by (simp add: zero_cfg_def)
  from invalid_parallel_is_fatal [OF p, of chain_env
      "\<lparr>fatal = Some ''Must enter a positive number of parallel threads'',
         bfs = None, printed = [], crash = None\<rparr>"] p
  show ?thesis by blast
qed

end
